theory Spec2Isabelle
  imports Main "HOL-Library.Word" "HOL-Library.Monad_Syntax"
begin

unbundle bit_operations_syntax

section \<open>The buffered file channel of \<open>Sources/file.c\<close>\<close>

text \<open>
  The development follows \<open>Sources/file.c\<close> function by function. The file object is
  the record \<open>mill_file\<close>; every function takes the object and the world and returns
  the C return value together with the updated object and world.

  \<^item> Byte counts (\<open>size_t\<close>) are natural numbers. They count bytes that are held in
    memory, so sums of them stay below \<open>2 ^ 64\<close>. Where the code or the kernel keeps
    the operands of a subtraction in order (a test before it; \<open>read\<close> and \<open>write\<close>
    never transfer more than they are asked to), it is the subtraction of natural
    numbers. The two subtractions of \<open>filereadlh\<close> that are in order only when the
    caller passes \<open>lowwater \<le> highwater\<close> are written with \<open>size_sub\<close>, the wrap-around
    of \<open>size_t\<close>.
  \<^item> \<open>MILL_FILE_BUFLEN\<close> is a build-time macro (\<open>#ifndef MILL_FILE_BUFLEN\<close>, default
    4096); the functions that use it take it as the parameter \<open>B\<close>.
  \<^item> The two arrays \<open>ibuf\<close> and \<open>obuf\<close> are lists of \<open>B\<close> bytes.
  \<^item> \<open>errno\<close> is a field of the world: \<open>None\<close> is 0, \<open>Some e\<close> an error code.
  \<^item> The descriptor is not modelled. The world holds the results that the successive
    \<open>read\<close>, \<open>write\<close> and \<open>fdwait\<close> calls are going to produce, and the log of the
    calls made so far. A function that asks for a result the world does not hold
    yields \<open>None\<close>: such a run has not returned within the scripted calls. Every loop
    makes a system call on each pass, so a run on a finite script ends.
  \<^item> A failing \<open>mill_assert\<close> aborts the process: the result \<open>Inl AssertionFailed\<close>.
  \<^item> The deadline is passed on to \<open>fdwait\<close> and decides nothing else; whether a wait
    times out is the world's choice.
\<close>

subsection \<open>Data\<close>

type_synonym byte = "8 word"
type_synonym mode_t = "32 word"

text \<open>Values of \<open>errno\<close> other than 0: the four that the code names, and some of the others
  a system call fails with.\<close>

datatype errcode = EAGAIN | EWOULDBLOCK | ETIMEDOUT | ENOMEM | EIO | EPIPE | EBADF | ENOSPC

text \<open>Modelled from the spec: \<open>mill_assert\<close> is declared in \<open>utils.h\<close>, which is not among
  the sources. It is the fatal assertion: it aborts the process when its condition is
  false.\<close>

datatype fault = AssertionFailed

record mill_file =
  fd :: int
  ifirst :: nat
  ilen :: nat
  olen :: nat
  ibuf :: "byte list"
  obuf :: "byte list"
  eof :: int
  mode :: mode_t

text \<open>The file type bits of \<open>st_mode\<close> (\<open>S_IFMT\<close>, \<open>S_IFREG\<close>, \<open>S_IFDIR\<close> of
  \<open>sys/stat.h\<close>).\<close>

definition S_ISREG :: "mode_t \<Rightarrow> bool" where
  "S_ISREG m = (m AND 0xF000 = 0x8000)"

definition S_ISDIR :: "mode_t \<Rightarrow> bool" where
  "S_ISDIR m = (m AND 0xF000 = 0x4000)"

text \<open>\<open>a - b\<close> on \<open>size_t\<close>, for \<open>a\<close> and \<open>b\<close> below \<open>2 ^ 64\<close>.\<close>

definition size_sub :: "nat \<Rightarrow> nat \<Rightarrow> nat" where
  "size_sub a b = (if b \<le> a then a - b else a + 2 ^ 64 - b)"

text \<open>\<open>memcpy(&dst[off], src, length src)\<close> on an array.\<close>

definition memcpy_at :: "byte list \<Rightarrow> nat \<Rightarrow> byte list \<Rightarrow> byte list" where
  "memcpy_at dst off src = take off dst @ src @ drop (off + length src) dst"

subsection \<open>The world: system calls and the scheduler\<close>

text \<open>Modelled from the spec: the constants \<open>FDW_IN\<close> and \<open>FDW_OUT\<close> are declared in
  \<open>libvenice.h\<close>, which is not among the sources. They name the direction a wait asks
  for and the readiness it reports; a wait returns 0 (here \<open>FDW_ZERO\<close>) when the deadline
  elapsed. \<open>FDW_ERR\<close> stands for any other result.\<close>

datatype fdw = FDW_ZERO | FDW_IN | FDW_OUT | FDW_ERR

text \<open>What one \<open>read\<close> call is going to do: deliver bytes (none: end of stream) or fail.
  What one \<open>write\<close> call is going to do: accept up to so many bytes or fail.\<close>

datatype rresp = Delivers "byte list" | RFails errcode
datatype wresp = Accepts nat | WFails errcode

text \<open>The log of the calls made: a system call with its descriptor, what it was asked
  (the byte count to read, the bytes to write) and its result (the bytes transferred, or
  the error); a wait with its three arguments and its result.\<close>

datatype sysres = Transferred "byte list" | Failed errcode

datatype call =
    SysRead int nat sysres
  | SysWrite int "byte list" sysres
  | Fdwait int fdw int fdw

record world =
  errno :: "errcode option"
  reads :: "rresp list"
  writes :: "wresp list"
  waits :: "fdw list"
  calls :: "call list"

text \<open>\<open>write(d, bs, length bs)\<close>: the number of bytes written, or -1 with \<open>errno\<close> set.
  The kernel never takes more than it is offered.\<close>

definition sys_write :: "int \<Rightarrow> byte list \<Rightarrow> world \<Rightarrow> (int \<times> world) option" where
  "sys_write d bs w =
     (case writes w of
        [] \<Rightarrow> None
      | r # rs \<Rightarrow>
          (case r of
             Accepts n \<Rightarrow>
               Some (int (min n (length bs)),
                     w\<lparr>writes := rs,
                       calls := calls w @ [SysWrite d bs (Transferred (take n bs))]\<rparr>)
           | WFails e \<Rightarrow>
               Some (- 1,
                     w\<lparr>errno := Some e, writes := rs,
                       calls := calls w @ [SysWrite d bs (Failed e)]\<rparr>)))"

text \<open>\<open>read(d, dst, count)\<close>: the number of bytes read and the bytes stored at \<open>dst\<close>, or
  -1 with \<open>errno\<close> set. The kernel never delivers more than \<open>count\<close> bytes.\<close>

definition sys_read :: "int \<Rightarrow> nat \<Rightarrow> world \<Rightarrow> (int \<times> byte list \<times> world) option" where
  "sys_read d count w =
     (case reads w of
        [] \<Rightarrow> None
      | r # rs \<Rightarrow>
          (case r of
             Delivers bs \<Rightarrow>
               Some (int (length (take count bs)), take count bs,
                     w\<lparr>reads := rs,
                       calls := calls w @ [SysRead d count (Transferred (take count bs))]\<rparr>)
           | RFails e \<Rightarrow>
               Some (- 1, [],
                     w\<lparr>errno := Some e, reads := rs,
                       calls := calls w @ [SysRead d count (Failed e)]\<rparr>)))"

text \<open>Modelled from the spec: \<open>fdwait\<close> is declared in \<open>libvenice.h\<close> and defined by the
  scheduler, neither among the sources. \<open>fdwait(d, events, deadline)\<close> suspends the task
  until the descriptor is ready in the direction asked for or the deadline elapses, and
  returns what happened. It is taken to leave \<open>errno\<close> as it is; the code reads \<open>errno\<close>
  only directly after a failed system call or its own assignment.\<close>

definition fdwait :: "int \<Rightarrow> fdw \<Rightarrow> int \<Rightarrow> world \<Rightarrow> (fdw \<times> world) option" where
  "fdwait d events deadline w =
     (case waits w of
        [] \<Rightarrow> None
      | r # rs \<Rightarrow> Some (r, w\<lparr>waits := rs, calls := calls w @ [Fdwait d events deadline r]\<rparr>))"

subsection \<open>\<open>fileflush\<close>\<close>

text \<open>The \<open>while(remaining)\<close> loop of \<open>fileflush\<close> with the two statements after it.
  \<open>pos\<close> is the offset of the C pointer \<open>pos\<close> from \<open>f->obuf\<close>.\<close>

function fileflush_loop ::
  "mill_file \<Rightarrow> int \<Rightarrow> nat \<Rightarrow> nat \<Rightarrow> world \<Rightarrow> (fault + mill_file \<times> world) option" where
  "fileflush_loop f deadline pos remaining w =
     (if remaining \<noteq> 0 then
        do {
          (sz, w1) \<leftarrow> sys_write (fd f) (take remaining (drop pos (obuf f))) w;
          if sz = - 1 then
            if errno w1 \<noteq> Some EAGAIN \<and> errno w1 \<noteq> Some EWOULDBLOCK then
              Some (Inr (f, w1))
            else if S_ISREG (mode f) \<or> S_ISDIR (mode f) then
              fileflush_loop f deadline pos remaining w1
            else
              do {
                (rc, w2) \<leftarrow> fdwait (fd f) FDW_OUT deadline w1;
                if rc = FDW_ZERO then Some (Inr (f, w2\<lparr>errno := Some ETIMEDOUT\<rparr>))
                else if rc \<noteq> FDW_OUT then Some (Inl AssertionFailed)
                else fileflush_loop f deadline pos remaining w2
              }
          else fileflush_loop f deadline (pos + nat sz) (remaining - nat sz) w1
        }
      else Some (Inr (f\<lparr>olen := 0\<rparr>, w\<lparr>errno := None\<rparr>)))"
  by pat_completeness auto
termination
  by (relation "measure (\<lambda>(f, deadline, pos, remaining, w). length (writes w))")
     (auto simp: sys_write_def fdwait_def split: list.splits wresp.splits)

declare fileflush_loop.simps [simp del]

definition fileflush :: "mill_file \<Rightarrow> int \<Rightarrow> world \<Rightarrow> (fault + mill_file \<times> world) option" where
  "fileflush f deadline w =
     (if olen f = 0 then Some (Inr (f, w\<lparr>errno := None\<rparr>))
      else fileflush_loop f deadline 0 (olen f) w)"

subsection \<open>\<open>filewrite\<close>\<close>

text \<open>The \<open>while(remaining)\<close> loop of \<open>filewrite\<close> with the final \<open>return len\<close>. The
  payload \<open>buf\<close> is the list of its \<open>len\<close> bytes; \<open>pos\<close> is an offset into it.\<close>

function filewrite_loop ::
  "mill_file \<Rightarrow> byte list \<Rightarrow> nat \<Rightarrow> int \<Rightarrow> nat \<Rightarrow> nat \<Rightarrow> world
     \<Rightarrow> (fault + nat \<times> mill_file \<times> world) option" where
  "filewrite_loop f buf len deadline pos remaining w =
     (if remaining \<noteq> 0 then
        do {
          (sz, w1) \<leftarrow> sys_write (fd f) (take remaining (drop pos buf)) w;
          if sz = - 1 then
            if errno w1 \<noteq> Some EAGAIN \<and> errno w1 \<noteq> Some EWOULDBLOCK then
              Some (Inr (0, f, w1))
            else if S_ISREG (mode f) \<or> S_ISDIR (mode f) then
              filewrite_loop f buf len deadline pos remaining w1
            else
              do {
                (rc, w2) \<leftarrow> fdwait (fd f) FDW_OUT deadline w1;
                if rc = FDW_ZERO then
                  Some (Inr (len - remaining, f, w2\<lparr>errno := Some ETIMEDOUT\<rparr>))
                else if rc \<noteq> FDW_OUT then Some (Inl AssertionFailed)
                else filewrite_loop f buf len deadline pos remaining w2
              }
          else filewrite_loop f buf len deadline (pos + nat sz) (remaining - nat sz) w1
        }
      else Some (Inr (len, f, w)))"
  by pat_completeness auto
termination
  by (relation "measure (\<lambda>(f, buf, len, deadline, pos, remaining, w). length (writes w))")
     (auto simp: sys_write_def fdwait_def split: list.splits wresp.splits)

declare filewrite_loop.simps [simp del]

definition filewrite ::
  "nat \<Rightarrow> mill_file \<Rightarrow> byte list \<Rightarrow> int \<Rightarrow> world \<Rightarrow> (fault + nat \<times> mill_file \<times> world) option" where
  "filewrite B f buf deadline w =
     (let len = length buf in
      if olen f + len \<le> B then
        Some (Inr (len, f\<lparr>obuf := memcpy_at (obuf f) (olen f) buf, olen := olen f + len\<rparr>,
                   w\<lparr>errno := None\<rparr>))
      else
        do {
          r \<leftarrow> fileflush f deadline w;
          case r of
            Inl a \<Rightarrow> Some (Inl a)
          | Inr (f1, w1) \<Rightarrow>
              if errno w1 \<noteq> None then Some (Inr (0, f1, w1))
              else if olen f1 + len \<le> B then
                Some (Inr (len,
                           f1\<lparr>obuf := memcpy_at (obuf f1) (olen f1) buf, olen := olen f1 + len\<rparr>,
                           w1\<lparr>errno := None\<rparr>))
              else filewrite_loop f1 buf len deadline 0 len w1
        })"

subsection \<open>\<open>fileread\<close>\<close>

text \<open>One pass through the body of a \<open>while(1)\<close> loop either returns from the function
  or reaches the end of the body, where the wait is.\<close>

datatype ('r, 's) step = Return 'r | Continue 's

text \<open>The destination \<open>buf\<close> is represented by the bytes stored into it so far; the C
  pointer \<open>pos\<close> always points just behind them. The function returns the count and
  these bytes.

  The \<open>if\<close>/\<open>else\<close> of the loop body: a direct read into the destination when more than
  a buffer is missing, a read into \<open>f->ibuf\<close> otherwise.\<close>

definition fileread_step ::
  "nat \<Rightarrow> mill_file \<Rightarrow> nat \<Rightarrow> byte list \<Rightarrow> nat \<Rightarrow> world
     \<Rightarrow> (nat \<times> byte list \<times> mill_file \<times> world, byte list \<times> nat \<times> mill_file \<times> world) step option" where
  "fileread_step B f len buf remaining w =
     (if remaining > B then
        do {
          (sz, got, w1) \<leftarrow> sys_read (fd f) remaining w;
          if sz = 0 then Some (Return (len - remaining, buf, f\<lparr>eof := 1\<rparr>, w1))
          else if sz = - 1 \<and> errno w1 \<noteq> Some EAGAIN \<and> errno w1 \<noteq> Some EWOULDBLOCK then
            Some (Return (len - remaining, buf, f, w1))
          else
            let sz = (if sz = - 1 then 0 else sz) in
            if nat sz = remaining then Some (Return (len, buf @ got, f, w1\<lparr>errno := None\<rparr>))
            else Some (Continue (buf @ got, remaining - nat sz, f, w1))
        }
      else
        do {
          (sz, got, w1) \<leftarrow> sys_read (fd f) B w;
          let f1 = f\<lparr>ibuf := memcpy_at (ibuf f) 0 got\<rparr> in
          if sz = 0 then Some (Return (len - remaining, buf, f1\<lparr>eof := 1\<rparr>, w1))
          else if sz = - 1 \<and> errno w1 \<noteq> Some EAGAIN \<and> errno w1 \<noteq> Some EWOULDBLOCK then
            Some (Return (len - remaining, buf, f1, w1))
          else
            let sz = (if sz = - 1 then 0 else sz) in
            if nat sz < remaining then
              Some (Continue (buf @ take (nat sz) (ibuf f1), remaining - nat sz,
                              f1\<lparr>ifirst := 0, ilen := 0\<rparr>, w1))
            else
              Some (Return (len, buf @ take remaining (ibuf f1),
                            f1\<lparr>ifirst := remaining, ilen := nat sz - remaining\<rparr>,
                            w1\<lparr>errno := None\<rparr>))
        })"

function fileread_loop ::
  "nat \<Rightarrow> mill_file \<Rightarrow> nat \<Rightarrow> int \<Rightarrow> byte list \<Rightarrow> nat \<Rightarrow> world
     \<Rightarrow> (fault + nat \<times> byte list \<times> mill_file \<times> world) option" where
  "fileread_loop B f len deadline buf remaining w =
     do {
       s \<leftarrow> fileread_step B f len buf remaining w;
       case s of
         Return r \<Rightarrow> Some (Inr r)
       | Continue (buf1, remaining1, f1, w1) \<Rightarrow>
           if S_ISREG (mode f1) \<or> S_ISDIR (mode f1) then
             fileread_loop B f1 len deadline buf1 remaining1 w1
           else
             do {
               (res, w2) \<leftarrow> fdwait (fd f1) FDW_IN deadline w1;
               if res = FDW_ZERO then
                 Some (Inr (len - remaining1, buf1, f1, w2\<lparr>errno := Some ETIMEDOUT\<rparr>))
               else fileread_loop B f1 len deadline buf1 remaining1 w2
             }
     }"
  by pat_completeness auto
termination
  by (relation "measure (\<lambda>(B, f, len, deadline, buf, remaining, w). length (reads w))")
     (auto simp: fileread_step_def sys_read_def fdwait_def Let_def
           split: if_splits bind_splits list.splits rresp.splits)

declare fileread_loop.simps [simp del]

definition fileread ::
  "nat \<Rightarrow> mill_file \<Rightarrow> nat \<Rightarrow> int \<Rightarrow> world
     \<Rightarrow> (fault + nat \<times> byte list \<times> mill_file \<times> world) option" where
  "fileread B f len deadline w =
     (if ilen f \<ge> len then
        Some (Inr (len, take len (drop (ifirst f) (ibuf f)),
                   f\<lparr>ifirst := ifirst f + len, ilen := ilen f - len\<rparr>, w\<lparr>errno := None\<rparr>))
      else
        let buf = take (ilen f) (drop (ifirst f) (ibuf f));
            remaining = len - ilen f;
            f1 = f\<lparr>ifirst := 0, ilen := 0\<rparr>
        in if remaining = 0 then Some (Inl AssertionFailed)
           else fileread_loop B f1 len deadline buf remaining w)"

subsection \<open>\<open>filereadlh\<close>\<close>

definition filereadlh_step ::
  "nat \<Rightarrow> mill_file \<Rightarrow> nat \<Rightarrow> nat \<Rightarrow> byte list \<Rightarrow> nat \<Rightarrow> nat \<Rightarrow> world
     \<Rightarrow> (nat \<times> byte list \<times> mill_file \<times> world,
         byte list \<times> nat \<times> nat \<times> mill_file \<times> world) step option" where
  "filereadlh_step B f lowwater highwater buf remaining received w =
     (if remaining > B then
        do {
          (sz, got, w1) \<leftarrow> sys_read (fd f) remaining w;
          if sz = 0 then Some (Return (received, buf, f\<lparr>eof := 1\<rparr>, w1))
          else if sz = - 1 \<and> errno w1 \<noteq> Some EAGAIN \<and> errno w1 \<noteq> Some EWOULDBLOCK then
            Some (Return (received, buf, f, w1))
          else
            let sz = (if sz = - 1 then 0 else sz) in
            if received + nat sz \<ge> lowwater then
              Some (Return (received + nat sz, buf @ got, f, w1\<lparr>errno := None\<rparr>))
            else Some (Continue (buf @ got, remaining - nat sz, received + nat sz, f, w1))
        }
      else
        do {
          (sz, got, w1) \<leftarrow> sys_read (fd f) B w;
          let f1 = f\<lparr>ibuf := memcpy_at (ibuf f) 0 got\<rparr> in
          if sz = 0 then Some (Return (received, buf, f1\<lparr>eof := 1\<rparr>, w1))
          else if sz = - 1 \<and> errno w1 \<noteq> Some EAGAIN \<and> errno w1 \<noteq> Some EWOULDBLOCK then
            Some (Return (received, buf, f1, w1))
          else
            let sz = (if sz = - 1 then 0 else sz) in
            if received + nat sz < lowwater then
              Some (Continue (buf @ take (nat sz) (ibuf f1), size_sub remaining (nat sz),
                              received + nat sz, f1\<lparr>ifirst := 0, ilen := 0\<rparr>, w1))
            else if received + nat sz > highwater then
              Some (Return (highwater, buf @ take remaining (ibuf f1),
                            f1\<lparr>ifirst := remaining, ilen := size_sub (nat sz) remaining\<rparr>,
                            w1\<lparr>errno := None\<rparr>))
            else
              Some (Return (received + nat sz, buf @ take (nat sz) (ibuf f1),
                            f1\<lparr>ifirst := 0, ilen := 0\<rparr>, w1\<lparr>errno := None\<rparr>))
        })"

function filereadlh_loop ::
  "nat \<Rightarrow> mill_file \<Rightarrow> nat \<Rightarrow> nat \<Rightarrow> int \<Rightarrow> byte list \<Rightarrow> nat \<Rightarrow> nat \<Rightarrow> world
     \<Rightarrow> (fault + nat \<times> byte list \<times> mill_file \<times> world) option" where
  "filereadlh_loop B f lowwater highwater deadline buf remaining received w =
     do {
       s \<leftarrow> filereadlh_step B f lowwater highwater buf remaining received w;
       case s of
         Return r \<Rightarrow> Some (Inr r)
       | Continue (buf1, remaining1, received1, f1, w1) \<Rightarrow>
           if S_ISREG (mode f1) \<or> S_ISDIR (mode f1) then
             filereadlh_loop B f1 lowwater highwater deadline buf1 remaining1 received1 w1
           else
             do {
               (res, w2) \<leftarrow> fdwait (fd f1) FDW_IN deadline w1;
               if res = FDW_ZERO then
                 Some (Inr (received1, buf1, f1, w2\<lparr>errno := Some ETIMEDOUT\<rparr>))
               else filereadlh_loop B f1 lowwater highwater deadline buf1 remaining1 received1 w2
             }
     }"
  by pat_completeness auto
termination
  by (relation "measure (\<lambda>(B, f, lo, hi, deadline, buf, remaining, received, w). length (reads w))")
     (auto simp: filereadlh_step_def sys_read_def fdwait_def Let_def
           split: if_splits bind_splits list.splits rresp.splits)

declare filereadlh_loop.simps [simp del]

definition filereadlh ::
  "nat \<Rightarrow> mill_file \<Rightarrow> nat \<Rightarrow> nat \<Rightarrow> int \<Rightarrow> world
     \<Rightarrow> (fault + nat \<times> byte list \<times> mill_file \<times> world) option" where
  "filereadlh B f lowwater highwater deadline w =
     (if ilen f \<ge> lowwater \<and> ilen f \<le> highwater then
        Some (Inr (ilen f, take (ilen f) (drop (ifirst f) (ibuf f)),
                   f\<lparr>ifirst := 0, ilen := 0\<rparr>, w\<lparr>errno := None\<rparr>))
      else if ilen f \<ge> highwater then
        Some (Inr (highwater, take highwater (drop (ifirst f) (ibuf f)),
                   f\<lparr>ifirst := ifirst f + highwater, ilen := ilen f - highwater\<rparr>,
                   w\<lparr>errno := None\<rparr>))
      else
        let buf = take (ilen f) (drop (ifirst f) (ibuf f));
            remaining = highwater - ilen f;
            received = ilen f;
            f1 = f\<lparr>ifirst := 0, ilen := 0\<rparr>
        in if remaining = 0 then Some (Inl AssertionFailed)
           else filereadlh_loop B f1 lowwater highwater deadline buf remaining received w)"

subsection \<open>Creation, \<open>fileseek\<close> and \<open>fileeof\<close>\<close>

text \<open>The results of \<open>open\<close>, \<open>malloc\<close>, \<open>fstat\<close>, \<open>fcntl\<close> and \<open>lseek\<close> are arguments. A
  successful \<open>malloc\<close> returns a block whose contents are indeterminate: \<open>Some g\<close>, where
  \<open>g\<close> is what the block happens to hold.\<close>

definition fileopen ::
  "errcode + int \<Rightarrow> mill_file option \<Rightarrow> errcode + mode_t \<Rightarrow> world
     \<Rightarrow> mill_file option \<times> world" where
  "fileopen open_ret malloc_ret fstat_ret w =
     (case open_ret of
        Inl e \<Rightarrow> (None, w\<lparr>errno := Some e\<rparr>)
      | Inr d \<Rightarrow>
          (case malloc_ret of
             None \<Rightarrow> (None, w\<lparr>errno := Some ENOMEM\<rparr>)
           | Some g \<Rightarrow>
               let f = g\<lparr>fd := d, ifirst := 0, ilen := 0, olen := 0, eof := 0\<rparr> in
               (case fstat_ret of
                  Inl e \<Rightarrow> (None, w\<lparr>errno := Some e\<rparr>)
                | Inr m \<Rightarrow> (Some (f\<lparr>mode := m\<rparr>), w\<lparr>errno := None\<rparr>))))"

text \<open>\<open>mill_filetune\<close>: \<open>rc\<close> is the result of \<open>fcntl(fd, F_SETFL, opt | O_NONBLOCK)\<close>.\<close>

definition mill_filetune :: "int \<Rightarrow> fault + unit" where
  "mill_filetune rc = (if rc \<noteq> - 1 then Inr () else Inl AssertionFailed)"

definition fileattach ::
  "int \<Rightarrow> mill_file option \<Rightarrow> int \<Rightarrow> world \<Rightarrow> fault + mill_file option \<times> world" where
  "fileattach d malloc_ret rc w =
     (case malloc_ret of
        None \<Rightarrow> Inr (None, w\<lparr>errno := Some ENOMEM\<rparr>)
      | Some g \<Rightarrow>
          (case mill_filetune rc of
             Inl a \<Rightarrow> Inl a
           | Inr _ \<Rightarrow>
               Inr (Some (g\<lparr>fd := d, ifirst := 0, ilen := 0, olen := 0\<rparr>), w\<lparr>errno := None\<rparr>)))"

definition fileseek ::
  "mill_file \<Rightarrow> int \<Rightarrow> errcode + int \<Rightarrow> world \<Rightarrow> int \<times> mill_file \<times> world" where
  "fileseek f offset lseek_ret w =
     (let f1 = f\<lparr>ifirst := 0, ilen := 0, olen := 0, eof := 0\<rparr> in
      case lseek_ret of
        Inl e \<Rightarrow> (- 1, f1, w\<lparr>errno := Some e\<rparr>)
      | Inr off \<Rightarrow> (off, f1, w))"

definition fileeof :: "mill_file \<Rightarrow> int" where
  "fileeof f = eof f"

section \<open>Describing channels and runs\<close>

text \<open>The vocabulary of the statements below. Nothing here is part of the program.\<close>

subsection \<open>The two sides of a channel\<close>

text \<open>The output side of a channel and its world: the pending output (\<open>olen\<close>, \<open>obuf\<close>),
  the results the coming \<open>write\<close> calls will produce, and the \<open>write\<close> calls made so far.
  The input side: the buffered input (\<open>ifirst\<close>, \<open>ilen\<close>, \<open>ibuf\<close>), the end-of-stream flag,
  the results the coming \<open>read\<close> calls will produce, and the \<open>read\<close> calls made so far.\<close>

fun is_write :: "call \<Rightarrow> bool" where
  "is_write (SysWrite d bs r) = True"
| "is_write c = False"

fun is_read :: "call \<Rightarrow> bool" where
  "is_read (SysRead d n r) = True"
| "is_read c = False"

definition output_side :: "mill_file \<Rightarrow> world \<Rightarrow> nat \<times> byte list \<times> wresp list \<times> call list" where
  "output_side f w = (olen f, obuf f, writes w, filter is_write (calls w))"

definition input_side ::
  "mill_file \<Rightarrow> world \<Rightarrow> nat \<times> nat \<times> byte list \<times> int \<times> rresp list \<times> call list" where
  "input_side f w = (ifirst f, ilen f, ibuf f, eof f, reads w, filter is_read (calls w))"

text \<open>The invariants of the two buffers, for the capacity \<open>B\<close>. The fields are of type
  \<open>size_t\<close>, so the lower bounds hold by type.\<close>

definition buffer_inv :: "nat \<Rightarrow> mill_file \<Rightarrow> bool" where
  "buffer_inv B f = (0 \<le> ifirst f \<and> ifirst f + ilen f \<le> B \<and> 0 \<le> olen f \<and> olen f \<le> B)"

text \<open>The input a channel holds buffered.\<close>

definition buffered_input :: "mill_file \<Rightarrow> byte list" where
  "buffered_input f = take (ilen f) (drop (ifirst f) (ibuf f))"

subsection \<open>The log of calls\<close>

text \<open>The calls made between two worlds of one run; the bytes that the \<open>read\<close> calls of a
  log delivered, in order, and those delivered between two worlds of one run.\<close>

definition calls_since :: "world \<Rightarrow> world \<Rightarrow> call list" where
  "calls_since w w1 = drop (length (calls w)) (calls w1)"

fun read_bytes :: "call \<Rightarrow> byte list" where
  "read_bytes (SysRead d n (Transferred bs)) = bs"
| "read_bytes c = []"

definition delivered :: "call list \<Rightarrow> byte list" where
  "delivered cs = concat (map read_bytes cs)"

definition delivered_since :: "world \<Rightarrow> world \<Rightarrow> byte list" where
  "delivered_since w w1 = drop (length (delivered (calls w))) (delivered (calls w1))"

text \<open>Why a read returned fewer bytes than it was asked for, told from the state it
  returns: the last call was a \<open>read\<close> of zero bytes and \<open>eof\<close> is set; the last call was
  an \<open>fdwait\<close> that returned 0 and \<open>errno\<close> is \<open>ETIMEDOUT\<close>; the last call was a \<open>read\<close>
  that failed with an error other than \<open>EAGAIN\<close> and \<open>EWOULDBLOCK\<close>, which is in
  \<open>errno\<close>.\<close>

fun read_zero :: "call \<Rightarrow> bool" where
  "read_zero (SysRead d n (Transferred bs)) = (bs = [])"
| "read_zero c = False"

fun wait_expired :: "call \<Rightarrow> bool" where
  "wait_expired (Fdwait d ev dl rc) = (rc = FDW_ZERO)"
| "wait_expired c = False"

fun read_failure :: "call \<Rightarrow> errcode option" where
  "read_failure (SysRead d n (Failed e)) = (if e = EAGAIN \<or> e = EWOULDBLOCK then None else Some e)"
| "read_failure c = None"

definition end_of_stream :: "mill_file \<Rightarrow> world \<Rightarrow> bool" where
  "end_of_stream f w = (calls w \<noteq> [] \<and> read_zero (last (calls w)) \<and> eof f = 1)"

definition timed_out :: "world \<Rightarrow> bool" where
  "timed_out w = (calls w \<noteq> [] \<and> wait_expired (last (calls w)) \<and> errno w = Some ETIMEDOUT)"

definition read_error :: "world \<Rightarrow> bool" where
  "read_error w = (calls w \<noteq> [] \<and> errno w \<noteq> None \<and> read_failure (last (calls w)) = errno w)"

text \<open>A call would block when it is a \<open>read\<close> or \<open>write\<close> that failed with \<open>EAGAIN\<close> or
  \<open>EWOULDBLOCK\<close>. A \<open>read\<close> is unfinished when it would block or delivered at least one
  byte. Descriptors of regular files and directories skip \<open>fdwait\<close>.
  \<open>fdwait_only_after J cs\<close>: the log \<open>cs\<close> does not start with an \<open>fdwait\<close>, and every
  \<open>fdwait\<close> in it comes directly after a system call that satisfies \<open>J\<close>.\<close>

fun is_fdwait :: "call \<Rightarrow> bool" where
  "is_fdwait (Fdwait d ev dl rc) = True"
| "is_fdwait c = False"

fun would_block :: "call \<Rightarrow> bool" where
  "would_block (SysRead d n (Failed e)) = (e = EAGAIN \<or> e = EWOULDBLOCK)"
| "would_block (SysWrite d bs (Failed e)) = (e = EAGAIN \<or> e = EWOULDBLOCK)"
| "would_block c = False"

fun unfinished_read :: "call \<Rightarrow> bool" where
  "unfinished_read (SysRead d n (Failed e)) = (e = EAGAIN \<or> e = EWOULDBLOCK)"
| "unfinished_read (SysRead d n (Transferred bs)) = (bs \<noteq> [])"
| "unfinished_read c = False"

definition skips_fdwait :: "mode_t \<Rightarrow> bool" where
  "skips_fdwait m = (S_ISREG m \<or> S_ISDIR m)"

definition would_block_on :: "mode_t \<Rightarrow> call \<Rightarrow> bool" where
  "would_block_on m c = (would_block c \<and> \<not> skips_fdwait m)"

definition unfinished_read_on :: "mode_t \<Rightarrow> call \<Rightarrow> bool" where
  "unfinished_read_on m c = (unfinished_read c \<and> \<not> skips_fdwait m)"

fun fdwait_only_after :: "(call \<Rightarrow> bool) \<Rightarrow> call list \<Rightarrow> bool" where
  "fdwait_only_after J [] = True"
| "fdwait_only_after J [c] = (\<not> is_fdwait c)"
| "fdwait_only_after J (c # c' # cs) =
     (\<not> is_fdwait c \<and>
      (if is_fdwait c' then J c \<and> fdwait_only_after J cs else fdwait_only_after J (c' # cs)))"

text \<open>\<open>fdwait_only_below need got cs\<close>: at every \<open>fdwait\<close> in the log \<open>cs\<close>, fewer than
  \<open>need\<close> bytes have been obtained, counting the \<open>got\<close> bytes obtained before \<open>cs\<close> and
  the bytes that the \<open>read\<close> calls of \<open>cs\<close> before the wait delivered.\<close>

fun fdwait_only_below :: "nat \<Rightarrow> nat \<Rightarrow> call list \<Rightarrow> bool" where
  "fdwait_only_below need got [] = True"
| "fdwait_only_below need got (c # cs) =
     (if is_fdwait c then got < need \<and> fdwait_only_below need got cs
      else fdwait_only_below need (got + length (read_bytes c)) cs)"

subsection \<open>Example channels\<close>

text \<open>A channel on a pipe (\<open>S_IFIFO\<close>, mode 0600) with the default capacity of 4096
  bytes and empty buffers, and a world in which nothing is scripted yet.\<close>

definition pipe_file :: mill_file where
  "pipe_file = \<lparr>fd = 3, ifirst = 0, ilen = 0, olen = 0, ibuf = replicate 4096 0,
     obuf = replicate 4096 0, eof = 0, mode = 0x1180\<rparr>"

definition world0 :: world where
  "world0 = \<lparr>errno = None, reads = [], writes = [], waits = [], calls = []\<rparr>"

text \<open>A heap block as \<open>malloc\<close> may return it: every field holds what an earlier owner
  left there.\<close>

definition stale_block :: mill_file where
  "stale_block = \<lparr>fd = 77, ifirst = 9, ilen = 9, olen = 9, ibuf = replicate 4096 0xAA,
     obuf = replicate 4096 0xAA, eof = 1, mode = 0x81A4\<rparr>"

section \<open>Reasoning about the primitives and the loops\<close>

text \<open>What the next system call returns is decided by the head of its script alone.\<close>

lemma sys_read_cases [case_names Nil Delivers Fails]:
  obtains (Nil) "reads w = []" "\<And>n. sys_read d n w = None"
    | (Delivers) bs rs where "reads w = Delivers bs # rs"
        "\<And>n. sys_read d n w =
           Some (int (length (take n bs)), take n bs,
                 w\<lparr>reads := rs, calls := calls w @ [SysRead d n (Transferred (take n bs))]\<rparr>)"
    | (Fails) e rs where "reads w = RFails e # rs"
        "\<And>n. sys_read d n w =
           Some (- 1, [],
                 w\<lparr>errno := Some e, reads := rs, calls := calls w @ [SysRead d n (Failed e)]\<rparr>)"
proof (cases "reads w")
  case Nil
  then show ?thesis using that(1) by (simp add: sys_read_def)
next
  case (Cons r rs)
  then show ?thesis using that(2,3) by (cases r) (simp_all add: sys_read_def)
qed

lemma sys_read_count_cases [case_names Nil Delivers Fails]:
  obtains (Nil) "sys_read d n w = None"
    | (Delivers) got rs where
        "sys_read d n w =
           Some (int (length got), got,
                 w\<lparr>reads := rs, calls := calls w @ [SysRead d n (Transferred got)]\<rparr>)"
        "length got \<le> n"
    | (Fails) e rs where
        "sys_read d n w =
           Some (- 1, [],
                 w\<lparr>errno := Some e, reads := rs, calls := calls w @ [SysRead d n (Failed e)]\<rparr>)"
  by (cases rule: sys_read_cases[of w d]) auto

lemma sys_write_cases [case_names Nil Accepts Fails]:
  obtains (Nil) "writes w = []" "\<And>bs. sys_write d bs w = None"
    | (Accepts) n rs where "writes w = Accepts n # rs"
        "\<And>bs. sys_write d bs w =
           Some (int (min n (length bs)),
                 w\<lparr>writes := rs, calls := calls w @ [SysWrite d bs (Transferred (take n bs))]\<rparr>)"
    | (Fails) e rs where "writes w = WFails e # rs"
        "\<And>bs. sys_write d bs w =
           Some (- 1,
                 w\<lparr>errno := Some e, writes := rs, calls := calls w @ [SysWrite d bs (Failed e)]\<rparr>)"
proof (cases "writes w")
  case Nil
  then show ?thesis using that(1) by (simp add: sys_write_def)
next
  case (Cons r rs)
  then show ?thesis using that(2,3) by (cases r) (simp_all add: sys_write_def)
qed

lemma fdwait_Some:
  "fdwait d ev dl w = Some (rc, w1) \<Longrightarrow>
     w1 = w\<lparr>waits := tl (waits w), calls := calls w @ [Fdwait d ev dl rc]\<rparr>"
  by (auto simp: fdwait_def split: list.splits)

lemma sys_write_call:
  assumes "sys_write d bs w = Some (sz, w1)"
  shows "\<exists>c. calls w1 = calls w @ [c] \<and> \<not> is_fdwait c
           \<and> (sz = - 1 \<and> \<not> (errno w1 \<noteq> Some EAGAIN \<and> errno w1 \<noteq> Some EWOULDBLOCK)
                \<longrightarrow> would_block c)"
  using assms by (cases rule: sys_write_cases[of w d]) auto

lemma sys_write_input:
  "sys_write d bs w = Some (sz, w1) \<Longrightarrow> input_side f w1 = input_side f w"
  by (cases rule: sys_write_cases[of w d]) (auto simp: input_side_def)

lemma fdwait_output:
  "fdwait d ev dl w = Some (rc, w1) \<Longrightarrow> output_side f (w1\<lparr>errno := e\<rparr>) = output_side f w"
  "fdwait d ev dl w = Some (rc, w1) \<Longrightarrow> output_side f w1 = output_side f w"
  by (auto dest!: fdwait_Some simp: output_side_def)

lemma fdwait_input:
  "fdwait d ev dl w = Some (rc, w1) \<Longrightarrow> input_side f (w1\<lparr>errno := e\<rparr>) = input_side f w"
  "fdwait d ev dl w = Some (rc, w1) \<Longrightarrow> input_side f w1 = input_side f w"
  by (auto dest!: fdwait_Some simp: input_side_def)

lemma input_side_simps [simp]:
  "input_side (f\<lparr>olen := k\<rparr>) w = input_side f w"
  "input_side (f\<lparr>obuf := bs\<rparr>) w = input_side f w"
  "input_side f (w\<lparr>errno := e\<rparr>) = input_side f w"
  by (simp_all add: input_side_def)

lemma delivered_snoc [simp]: "delivered (cs @ [c]) = delivered cs @ read_bytes c"
  by (simp add: delivered_def)

lemma fdwait_delivered:
  "fdwait d ev dl w = Some (rc, w1) \<Longrightarrow> delivered (calls w1) = delivered (calls w)"
  by (auto dest!: fdwait_Some)

lemma fdwait_timed_out:
  "fdwait d ev dl w = Some (FDW_ZERO, w1) \<Longrightarrow> timed_out (w1\<lparr>errno := Some ETIMEDOUT\<rparr>)"
  by (auto dest!: fdwait_Some simp: timed_out_def)

lemma memcpy_at_0 [simp]:
  "take (length got) (memcpy_at xs 0 got) = got"
  "k \<le> length got \<Longrightarrow> take k (memcpy_at xs 0 got) = take k got"
  "k \<le> length got \<Longrightarrow> take (length got - k) (drop k (memcpy_at xs 0 got)) = drop k got"
  by (simp_all add: memcpy_at_def)

lemma take_take_drop:
  "a \<le> b \<Longrightarrow> take a xs @ take (b - a) (drop a xs) = take b xs"
  by (metis le_add_diff_inverse take_add)

text \<open>One induction rule for each loop: a case for every way a pass through the loop
  body ends (a return, or the next pass). \<open>r\<close> is what the function returns in the end.\<close>

lemma fileread_loop_induct [consumes 1, case_names Return Timeout Retry Wake]:
  assumes "fileread_loop B f len dl buf remaining w = Some (Inr r)"
    and "\<And>f buf remaining w. fileread_step B f len buf remaining w = Some (Return r)
           \<Longrightarrow> P f buf remaining w"
    and "\<And>f buf remaining w buf1 remaining1 f1 w1 w2.
           fileread_step B f len buf remaining w = Some (Continue (buf1, remaining1, f1, w1))
           \<Longrightarrow> \<not> (S_ISREG (mode f1) \<or> S_ISDIR (mode f1))
           \<Longrightarrow> fdwait (fd f1) FDW_IN dl w1 = Some (FDW_ZERO, w2)
           \<Longrightarrow> r = (len - remaining1, buf1, f1, w2\<lparr>errno := Some ETIMEDOUT\<rparr>)
           \<Longrightarrow> P f buf remaining w"
    and "\<And>f buf remaining w buf1 remaining1 f1 w1.
           fileread_step B f len buf remaining w = Some (Continue (buf1, remaining1, f1, w1))
           \<Longrightarrow> S_ISREG (mode f1) \<or> S_ISDIR (mode f1)
           \<Longrightarrow> P f1 buf1 remaining1 w1
           \<Longrightarrow> P f buf remaining w"
    and "\<And>f buf remaining w buf1 remaining1 f1 w1 rc w2.
           fileread_step B f len buf remaining w = Some (Continue (buf1, remaining1, f1, w1))
           \<Longrightarrow> \<not> (S_ISREG (mode f1) \<or> S_ISDIR (mode f1))
           \<Longrightarrow> fdwait (fd f1) FDW_IN dl w1 = Some (rc, w2)
           \<Longrightarrow> rc \<noteq> FDW_ZERO
           \<Longrightarrow> P f1 buf1 remaining1 w2
           \<Longrightarrow> P f buf remaining w"
  shows "P f buf remaining w"
  using assms
proof (induction B f len dl buf remaining w rule: fileread_loop.induct)
  case (1 B f len dl buf remaining w)
  note run = "1.prems"(1)[unfolded fileread_loop.simps[of B f len dl buf remaining w]]
  note rules = "1.prems"(2-5)
  from run obtain s where s: "fileread_step B f len buf remaining w = Some s"
    by (cases "fileread_step B f len buf remaining w") simp_all
  show ?case
  proof (cases s)
    case (Return r')
    with run s have "r' = r" by simp
    with Return s rules(1) show ?thesis by simp
  next
    case (Continue c)
    obtain buf1 remaining1 f1 w1 where c: "c = (buf1, remaining1, f1, w1)"
      by (cases c) auto
    note s' = s[unfolded Continue c]
    show ?thesis
    proof (cases "S_ISREG (mode f1) \<or> S_ISDIR (mode f1)")
      case True
      with run s' have "fileread_loop B f1 len dl buf1 remaining1 w1 = Some (Inr r)"
        by auto
      then have "P f1 buf1 remaining1 w1"
        using "1.IH"(1)[OF s' refl refl refl refl True] rules by blast
      with s' True rules(3) show ?thesis by blast
    next
      case False
      with run s' obtain rc w2 where
        fw: "fdwait (fd f1) FDW_IN dl w1 = Some (rc, w2)"
        by (cases "fdwait (fd f1) FDW_IN dl w1") auto
      show ?thesis
      proof (cases "rc = FDW_ZERO")
        case True
        with run s' False fw
        have "r = (len - remaining1, buf1, f1, w2\<lparr>errno := Some ETIMEDOUT\<rparr>)"
          by auto
        with s' False fw True rules(2) show ?thesis by blast
      next
        case nz: False
        with run s' False fw
        have "fileread_loop B f1 len dl buf1 remaining1 w2 = Some (Inr r)"
          by auto
        then have "P f1 buf1 remaining1 w2"
          using "1.IH"(2)[OF s' refl refl refl refl False fw refl nz] rules by blast
        with s' False fw nz rules(4) show ?thesis by blast
      qed
    qed
  qed
qed

lemma filereadlh_loop_induct [consumes 1, case_names Return Timeout Retry Wake]:
  assumes "filereadlh_loop B f lowwater highwater dl buf remaining received w = Some (Inr r)"
    and "\<And>f buf remaining received w. filereadlh_step B f lowwater highwater buf remaining received w = Some (Return r)
           \<Longrightarrow> P f buf remaining received w"
    and "\<And>f buf remaining received w buf1 remaining1 received1 f1 w1 w2.
           filereadlh_step B f lowwater highwater buf remaining received w = Some (Continue (buf1, remaining1, received1, f1, w1))
           \<Longrightarrow> \<not> (S_ISREG (mode f1) \<or> S_ISDIR (mode f1))
           \<Longrightarrow> fdwait (fd f1) FDW_IN dl w1 = Some (FDW_ZERO, w2)
           \<Longrightarrow> r = (received1, buf1, f1, w2\<lparr>errno := Some ETIMEDOUT\<rparr>)
           \<Longrightarrow> P f buf remaining received w"
    and "\<And>f buf remaining received w buf1 remaining1 received1 f1 w1.
           filereadlh_step B f lowwater highwater buf remaining received w = Some (Continue (buf1, remaining1, received1, f1, w1))
           \<Longrightarrow> S_ISREG (mode f1) \<or> S_ISDIR (mode f1)
           \<Longrightarrow> P f1 buf1 remaining1 received1 w1
           \<Longrightarrow> P f buf remaining received w"
    and "\<And>f buf remaining received w buf1 remaining1 received1 f1 w1 rc w2.
           filereadlh_step B f lowwater highwater buf remaining received w = Some (Continue (buf1, remaining1, received1, f1, w1))
           \<Longrightarrow> \<not> (S_ISREG (mode f1) \<or> S_ISDIR (mode f1))
           \<Longrightarrow> fdwait (fd f1) FDW_IN dl w1 = Some (rc, w2)
           \<Longrightarrow> rc \<noteq> FDW_ZERO
           \<Longrightarrow> P f1 buf1 remaining1 received1 w2
           \<Longrightarrow> P f buf remaining received w"
  shows "P f buf remaining received w"
  using assms
proof (induction B f lowwater highwater dl buf remaining received w rule: filereadlh_loop.induct)
  case (1 B f lowwater highwater dl buf remaining received w)
  note run = "1.prems"(1)[unfolded filereadlh_loop.simps[of B f lowwater highwater dl buf remaining received w]]
  note rules = "1.prems"(2-5)
  from run obtain s where s: "filereadlh_step B f lowwater highwater buf remaining received w = Some s"
    by (cases "filereadlh_step B f lowwater highwater buf remaining received w") simp_all
  show ?case
  proof (cases s)
    case (Return r')
    with run s have "r' = r" by simp
    with Return s rules(1) show ?thesis by simp
  next
    case (Continue c)
    obtain buf1 remaining1 received1 f1 w1 where c: "c = (buf1, remaining1, received1, f1, w1)"
      by (cases c) auto
    note s' = s[unfolded Continue c]
    show ?thesis
    proof (cases "S_ISREG (mode f1) \<or> S_ISDIR (mode f1)")
      case True
      with run s' have "filereadlh_loop B f1 lowwater highwater dl buf1 remaining1 received1 w1 = Some (Inr r)"
        by auto
      then have "P f1 buf1 remaining1 received1 w1"
        using "1.IH"(1)[OF s' refl refl refl refl refl True] rules by blast
      with s' True rules(3) show ?thesis by blast
    next
      case False
      with run s' obtain rc w2 where
        fw: "fdwait (fd f1) FDW_IN dl w1 = Some (rc, w2)"
        by (cases "fdwait (fd f1) FDW_IN dl w1") auto
      show ?thesis
      proof (cases "rc = FDW_ZERO")
        case True
        with run s' False fw
        have "r = (received1, buf1, f1, w2\<lparr>errno := Some ETIMEDOUT\<rparr>)"
          by auto
        with s' False fw True rules(2) show ?thesis by blast
      next
        case nz: False
        with run s' False fw
        have "filereadlh_loop B f1 lowwater highwater dl buf1 remaining1 received1 w2 = Some (Inr r)"
          by auto
        then have "P f1 buf1 remaining1 received1 w2"
          using "1.IH"(2)[OF s' refl refl refl refl refl False fw refl nz] rules by blast
        with s' False fw nz rules(4) show ?thesis by blast
      qed
    qed
  qed
qed

lemma fileflush_loop_induct [consumes 1, case_names Done Error Timeout Retry Wake Progress]:
  assumes "fileflush_loop f dl pos remaining w = Some (Inr r)"
    and "\<And>pos w. r = (f\<lparr>olen := 0\<rparr>, w\<lparr>errno := None\<rparr>) \<Longrightarrow> P pos 0 w"
    and "\<And>pos remaining w w1.
           remaining \<noteq> 0
           \<Longrightarrow> sys_write (fd f) (take remaining (drop pos (obuf f))) w = Some (- 1, w1)
           \<Longrightarrow> errno w1 \<noteq> Some EAGAIN \<and> errno w1 \<noteq> Some EWOULDBLOCK
           \<Longrightarrow> r = (f, w1)
           \<Longrightarrow> P pos remaining w"
    and "\<And>pos remaining w w1 w2.
           remaining \<noteq> 0
           \<Longrightarrow> sys_write (fd f) (take remaining (drop pos (obuf f))) w = Some (- 1, w1)
           \<Longrightarrow> \<not> (errno w1 \<noteq> Some EAGAIN \<and> errno w1 \<noteq> Some EWOULDBLOCK)
           \<Longrightarrow> \<not> (S_ISREG (mode f) \<or> S_ISDIR (mode f))
           \<Longrightarrow> fdwait (fd f) FDW_OUT dl w1 = Some (FDW_ZERO, w2)
           \<Longrightarrow> r = (f, w2\<lparr>errno := Some ETIMEDOUT\<rparr>)
           \<Longrightarrow> P pos remaining w"
    and "\<And>pos remaining w w1.
           remaining \<noteq> 0
           \<Longrightarrow> sys_write (fd f) (take remaining (drop pos (obuf f))) w = Some (- 1, w1)
           \<Longrightarrow> \<not> (errno w1 \<noteq> Some EAGAIN \<and> errno w1 \<noteq> Some EWOULDBLOCK)
           \<Longrightarrow> S_ISREG (mode f) \<or> S_ISDIR (mode f)
           \<Longrightarrow> P pos remaining w1
           \<Longrightarrow> P pos remaining w"
    and "\<And>pos remaining w w1 w2.
           remaining \<noteq> 0
           \<Longrightarrow> sys_write (fd f) (take remaining (drop pos (obuf f))) w = Some (- 1, w1)
           \<Longrightarrow> \<not> (errno w1 \<noteq> Some EAGAIN \<and> errno w1 \<noteq> Some EWOULDBLOCK)
           \<Longrightarrow> \<not> (S_ISREG (mode f) \<or> S_ISDIR (mode f))
           \<Longrightarrow> fdwait (fd f) FDW_OUT dl w1 = Some (FDW_OUT, w2)
           \<Longrightarrow> P pos remaining w2
           \<Longrightarrow> P pos remaining w"
    and "\<And>pos remaining w sz w1.
           remaining \<noteq> 0
           \<Longrightarrow> sys_write (fd f) (take remaining (drop pos (obuf f))) w = Some (sz, w1)
           \<Longrightarrow> sz \<noteq> - 1
           \<Longrightarrow> P (pos + nat sz) (remaining - nat sz) w1
           \<Longrightarrow> P pos remaining w"
  shows "P pos remaining w"
  using assms
proof (induction f dl pos remaining w rule: fileflush_loop.induct)
  case (1 f dl pos remaining w)
  note run = "1.prems"(1)[unfolded fileflush_loop.simps[of f dl pos remaining w]]
  note rules = "1.prems"(2-7)
  show ?case
  proof (cases "remaining = 0")
    case True
    with run rules(1) show ?thesis by auto
  next
    case nz: False
    with run obtain sz w1 where
      sw: "sys_write (fd f) (take remaining (drop pos (obuf f))) w = Some (sz, w1)"
      by (cases "sys_write (fd f) (take remaining (drop pos (obuf f))) w") auto
    show ?thesis
    proof (cases "sz = - 1")
      case False
      with run nz sw
      have "fileflush_loop f dl (pos + nat sz) (remaining - nat sz) w1 = Some (Inr r)"
        by simp
      then have "P (pos + nat sz) (remaining - nat sz) w1"
        using "1.IH"(3)[OF nz sw refl False] rules by blast
      with nz sw False rules(6) show ?thesis by blast
    next
      case neg: True
      note sw' = sw[unfolded neg]
      show ?thesis
      proof (cases "errno w1 \<noteq> Some EAGAIN \<and> errno w1 \<noteq> Some EWOULDBLOCK")
        case True
        with run nz sw neg have "r = (f, w1)" by auto
        with nz sw' True rules(2) show ?thesis by blast
      next
        case again: False
        show ?thesis
        proof (cases "S_ISREG (mode f) \<or> S_ISDIR (mode f)")
          case True
          with run nz sw neg again
          have "fileflush_loop f dl pos remaining w1 = Some (Inr r)"
            by auto
          then have "P pos remaining w1"
            using "1.IH"(1)[OF nz sw refl neg again True] rules by blast
          with nz sw' again True rules(4) show ?thesis by blast
        next
          case False
          with run nz sw neg again obtain rc w2 where
            fw: "fdwait (fd f) FDW_OUT dl w1 = Some (rc, w2)"
            by (cases "fdwait (fd f) FDW_OUT dl w1") auto
          show ?thesis
          proof (cases "rc = FDW_ZERO")
            case True
            with run nz sw neg again False fw
            have "r = (f, w2\<lparr>errno := Some ETIMEDOUT\<rparr>)" by auto
            with nz sw' again False fw True rules(3) show ?thesis by blast
          next
            case nzero: False
            with run nz sw neg again False fw have out: "rc = FDW_OUT"
              by (auto split: if_splits)
            with run nz sw neg again False fw
            have "fileflush_loop f dl pos remaining w2 = Some (Inr r)"
              by auto
            then have "P pos remaining w2"
              using "1.IH"(2)[OF nz sw refl neg again False fw refl nzero] out rules
              by blast
            with nz sw' again False fw out rules(5) show ?thesis by blast
          qed
        qed
      qed
    qed
  qed
qed

lemma filewrite_loop_induct [consumes 1, case_names Done Error Timeout Retry Wake Progress]:
  assumes "filewrite_loop f buf len dl pos remaining w = Some (Inr r)"
    and "\<And>pos w. r = (len, f, w) \<Longrightarrow> P pos 0 w"
    and "\<And>pos remaining w w1.
           remaining \<noteq> 0
           \<Longrightarrow> sys_write (fd f) (take remaining (drop pos buf)) w = Some (- 1, w1)
           \<Longrightarrow> errno w1 \<noteq> Some EAGAIN \<and> errno w1 \<noteq> Some EWOULDBLOCK
           \<Longrightarrow> r = (0, f, w1)
           \<Longrightarrow> P pos remaining w"
    and "\<And>pos remaining w w1 w2.
           remaining \<noteq> 0
           \<Longrightarrow> sys_write (fd f) (take remaining (drop pos buf)) w = Some (- 1, w1)
           \<Longrightarrow> \<not> (errno w1 \<noteq> Some EAGAIN \<and> errno w1 \<noteq> Some EWOULDBLOCK)
           \<Longrightarrow> \<not> (S_ISREG (mode f) \<or> S_ISDIR (mode f))
           \<Longrightarrow> fdwait (fd f) FDW_OUT dl w1 = Some (FDW_ZERO, w2)
           \<Longrightarrow> r = (len - remaining, f, w2\<lparr>errno := Some ETIMEDOUT\<rparr>)
           \<Longrightarrow> P pos remaining w"
    and "\<And>pos remaining w w1.
           remaining \<noteq> 0
           \<Longrightarrow> sys_write (fd f) (take remaining (drop pos buf)) w = Some (- 1, w1)
           \<Longrightarrow> \<not> (errno w1 \<noteq> Some EAGAIN \<and> errno w1 \<noteq> Some EWOULDBLOCK)
           \<Longrightarrow> S_ISREG (mode f) \<or> S_ISDIR (mode f)
           \<Longrightarrow> P pos remaining w1
           \<Longrightarrow> P pos remaining w"
    and "\<And>pos remaining w w1 w2.
           remaining \<noteq> 0
           \<Longrightarrow> sys_write (fd f) (take remaining (drop pos buf)) w = Some (- 1, w1)
           \<Longrightarrow> \<not> (errno w1 \<noteq> Some EAGAIN \<and> errno w1 \<noteq> Some EWOULDBLOCK)
           \<Longrightarrow> \<not> (S_ISREG (mode f) \<or> S_ISDIR (mode f))
           \<Longrightarrow> fdwait (fd f) FDW_OUT dl w1 = Some (FDW_OUT, w2)
           \<Longrightarrow> P pos remaining w2
           \<Longrightarrow> P pos remaining w"
    and "\<And>pos remaining w sz w1.
           remaining \<noteq> 0
           \<Longrightarrow> sys_write (fd f) (take remaining (drop pos buf)) w = Some (sz, w1)
           \<Longrightarrow> sz \<noteq> - 1
           \<Longrightarrow> P (pos + nat sz) (remaining - nat sz) w1
           \<Longrightarrow> P pos remaining w"
  shows "P pos remaining w"
  using assms
proof (induction f buf len dl pos remaining w rule: filewrite_loop.induct)
  case (1 f buf len dl pos remaining w)
  note run = "1.prems"(1)[unfolded filewrite_loop.simps[of f buf len dl pos remaining w]]
  note rules = "1.prems"(2-7)
  show ?case
  proof (cases "remaining = 0")
    case True
    with run rules(1) show ?thesis by auto
  next
    case nz: False
    with run obtain sz w1 where
      sw: "sys_write (fd f) (take remaining (drop pos buf)) w = Some (sz, w1)"
      by (cases "sys_write (fd f) (take remaining (drop pos buf)) w") auto
    show ?thesis
    proof (cases "sz = - 1")
      case False
      with run nz sw
      have "filewrite_loop f buf len dl (pos + nat sz) (remaining - nat sz) w1 = Some (Inr r)"
        by simp
      then have "P (pos + nat sz) (remaining - nat sz) w1"
        using "1.IH"(3)[OF nz sw refl False] rules by blast
      with nz sw False rules(6) show ?thesis by blast
    next
      case neg: True
      note sw' = sw[unfolded neg]
      show ?thesis
      proof (cases "errno w1 \<noteq> Some EAGAIN \<and> errno w1 \<noteq> Some EWOULDBLOCK")
        case True
        with run nz sw neg have "r = (0, f, w1)" by auto
        with nz sw' True rules(2) show ?thesis by blast
      next
        case again: False
        show ?thesis
        proof (cases "S_ISREG (mode f) \<or> S_ISDIR (mode f)")
          case True
          with run nz sw neg again
          have "filewrite_loop f buf len dl pos remaining w1 = Some (Inr r)"
            by auto
          then have "P pos remaining w1"
            using "1.IH"(1)[OF nz sw refl neg again True] rules by blast
          with nz sw' again True rules(4) show ?thesis by blast
        next
          case False
          with run nz sw neg again obtain rc w2 where
            fw: "fdwait (fd f) FDW_OUT dl w1 = Some (rc, w2)"
            by (cases "fdwait (fd f) FDW_OUT dl w1") auto
          show ?thesis
          proof (cases "rc = FDW_ZERO")
            case True
            with run nz sw neg again False fw
            have "r = (len - remaining, f, w2\<lparr>errno := Some ETIMEDOUT\<rparr>)" by auto
            with nz sw' again False fw True rules(3) show ?thesis by blast
          next
            case nzero: False
            with run nz sw neg again False fw have out: "rc = FDW_OUT"
              by (auto split: if_splits)
            with run nz sw neg again False fw
            have "filewrite_loop f buf len dl pos remaining w2 = Some (Inr r)"
              by auto
            then have "P pos remaining w2"
              using "1.IH"(2)[OF nz sw refl neg again False fw refl nzero] out rules
              by blast
            with nz sw' again False fw out rules(5) show ?thesis by blast
          qed
        qed
      qed
    qed
  qed
qed

text \<open>\<open>fileflush\<close> returns in one of two ways: with an error and the object untouched, or
  with success and \<open>olen\<close> reset. The loop of \<open>filewrite\<close> does not assign to the object.\<close>

lemma sys_write_fail_errno:
  "sys_write d bs w = Some (- 1, w1) \<Longrightarrow> \<exists>e. errno w1 = Some e"
  by (auto simp: sys_write_def split: list.splits wresp.splits)

lemma fileflush_loop_result:
  "fileflush_loop f dl pos remaining w = Some (Inr (f1, w1))
     \<Longrightarrow> (f1 = f \<and> errno w1 \<noteq> None) \<or> (f1 = f\<lparr>olen := 0\<rparr> \<and> errno w1 = None)"
proof (induction f dl pos remaining w rule: fileflush_loop.induct)
  case (1 f dl pos remaining w)
  note E = "1.prems"[unfolded fileflush_loop.simps[of f dl pos remaining w]]
  show ?case using E "1.IH"
    by (auto split: if_splits bind_splits dest!: sys_write_fail_errno)
qed

lemma fileflush_result:
  "fileflush f dl w = Some (Inr (f1, w1))
     \<Longrightarrow> (f1 = f \<and> errno w1 \<noteq> None) \<or> (f1 = f\<lparr>olen := 0\<rparr> \<and> errno w1 = None)"
  by (auto simp: fileflush_def split: if_splits dest: fileflush_loop_result)

lemma fileflush_mode:
  "fileflush f dl w = Some (Inr (f1, w1)) \<Longrightarrow> mode f1 = mode f"
  by (auto dest!: fileflush_result)

lemma filewrite_loop_file:
  assumes "filewrite_loop f buf len dl pos remaining w = Some (Inr (n, f1, w1))"
  shows "f1 = f"
  using assms by (induct rule: filewrite_loop_induct) simp_all

section \<open>Partial progress of writes\<close>

text \<open>
  Claim C1. The claim is that a direct write that fails with an error other than
  would-block, after part of the payload has been sent, returns the count of the bytes
  sent so far. The code returns 0 from that branch (\<open>return 0\<close>), whereas the timeout
  branch of the same loop returns \<open>len - remaining\<close>. Here a payload of 5000 bytes goes
  to a pipe through an empty output buffer of 4096 bytes: the first \<open>write\<close> takes 1000
  bytes, the second fails with \<open>EPIPE\<close>, and \<open>filewrite\<close> returns 0 with \<open>errno = EPIPE\<close>.
\<close>

theorem filewrite_error_returns_zero:
  "filewrite 4096 pipe_file (replicate 5000 7) 0
      (world0\<lparr>writes := [Accepts 1000, WFails EPIPE]\<rparr>)
     = Some (Inr (0, pipe_file,
          \<lparr>errno = Some EPIPE, reads = [], writes = [], waits = [],
           calls = [SysWrite 3 (replicate 5000 7) (Transferred (replicate 1000 7)),
                    SysWrite 3 (replicate 4000 7) (Failed EPIPE)]\<rparr>))"
  by (simp add: filewrite_def fileflush_def pipe_file_def world0_def sys_write_def
        filewrite_loop.simps)

text \<open>
  Claim C2. The claim is that a \<open>fileflush\<close> that times out after part of the pending
  output has been written leaves exactly the unsent bytes pending. The code returns from
  the timeout branch without touching \<open>olen\<close> or \<open>obuf\<close>; the progress held in the locals
  \<open>pos\<close> and \<open>remaining\<close> is lost. Here four bytes are pending on a pipe: \<open>write\<close> takes
  two of them, the next \<open>write\<close> would block and the wait times out. The object is
  returned as it was, all four bytes pending, and the next \<open>fileflush\<close> hands the two
  bytes already written to \<open>write\<close> again.
\<close>

theorem fileflush_timeout_keeps_sent_bytes:
  "fileflush (pipe_file\<lparr>obuf := [1, 2, 3, 4] @ replicate 4092 0, olen := 4\<rparr>) 0
      (world0\<lparr>writes := [Accepts 2, WFails EAGAIN, Accepts 4], waits := [FDW_ZERO]\<rparr>)
     = Some (Inr (pipe_file\<lparr>obuf := [1, 2, 3, 4] @ replicate 4092 0, olen := 4\<rparr>,
          \<lparr>errno = Some ETIMEDOUT, reads = [], writes = [Accepts 4], waits = [],
           calls = [SysWrite 3 [1, 2, 3, 4] (Transferred [1, 2]),
                    SysWrite 3 [3, 4] (Failed EAGAIN),
                    Fdwait 3 FDW_OUT 0 FDW_ZERO]\<rparr>))
   \<and> fileflush (pipe_file\<lparr>obuf := [1, 2, 3, 4] @ replicate 4092 0, olen := 4\<rparr>) 0
        \<lparr>errno = Some ETIMEDOUT, reads = [], writes = [Accepts 4], waits = [],
         calls = [SysWrite 3 [1, 2, 3, 4] (Transferred [1, 2]),
                  SysWrite 3 [3, 4] (Failed EAGAIN),
                  Fdwait 3 FDW_OUT 0 FDW_ZERO]\<rparr>
     = Some (Inr (pipe_file\<lparr>obuf := [1, 2, 3, 4] @ replicate 4092 0, olen := 0\<rparr>,
          \<lparr>errno = None, reads = [], writes = [], waits = [],
           calls = [SysWrite 3 [1, 2, 3, 4] (Transferred [1, 2]),
                    SysWrite 3 [3, 4] (Failed EAGAIN),
                    Fdwait 3 FDW_OUT 0 FDW_ZERO,
                    SysWrite 3 [1, 2, 3, 4] (Transferred [1, 2, 3, 4])]\<rparr>))"
  by (simp add: fileflush_def pipe_file_def world0_def sys_write_def fdwait_def
        fileflush_loop.simps S_ISREG_def S_ISDIR_def)

section \<open>Short reads\<close>

text \<open>The count that \<open>fileread\<close> returns is the number of bytes it stored for the
  caller: \<open>len - remaining\<close> never goes below zero.\<close>

lemma fileread_step_length:
  assumes inv: "length buf + remaining = len"
    and step: "fileread_step B f len buf remaining w = Some s"
  shows "case s of
      Return (n, data, f1, w1) \<Rightarrow> length data = n
    | Continue (buf1, remaining1, f2, w2) \<Rightarrow> length buf1 + remaining1 = len"
proof (cases "B < remaining")
  case True
  show ?thesis
  proof (cases rule: sys_read_count_cases[of "fd f" remaining w])
    case Nil
    with step True show ?thesis by (simp add: fileread_step_def)
  next
    case (Delivers got rs)
    with step True inv show ?thesis
      by (auto simp: fileread_step_def Let_def split: if_splits)
  next
    case (Fails e rs)
    with step True inv show ?thesis
      by (auto simp: fileread_step_def Let_def split: if_splits)
  qed
next
  case False
  show ?thesis
  proof (cases rule: sys_read_count_cases[of "fd f" B w])
    case Nil
    with step False show ?thesis by (simp add: fileread_step_def)
  next
    case (Delivers got rs)
    with step False inv show ?thesis
      by (auto simp: fileread_step_def Let_def split: if_splits)
  next
    case (Fails e rs)
    with step False inv show ?thesis
      by (auto simp: fileread_step_def Let_def split: if_splits)
  qed
qed

lemma fileread_loop_length:
  assumes "fileread_loop B f len dl buf remaining w = Some (Inr (n, data, f1, w1))"
  shows "length buf + remaining = len \<longrightarrow> length data = n"
  using assms
proof (induct rule: fileread_loop_induct)
  case (Return f buf remaining w)
  then show ?case using fileread_step_length by fastforce
next
  case (Timeout f buf remaining w buf1 remaining1 f2 w2 w3)
  then show ?case using fileread_step_length by fastforce
next
  case (Retry f buf remaining w buf1 remaining1 f2 w2)
  then show ?case using fileread_step_length by fastforce
next
  case (Wake f buf remaining w buf1 remaining1 f2 w2 rc w3)
  then show ?case using fileread_step_length by fastforce
qed

lemma fileread_length:
  assumes "ifirst f + ilen f \<le> length (ibuf f)"
    and "fileread B f len dl w = Some (Inr (n, data, f1, w1))"
  shows "length data = n"
  using assms
  by (auto simp: fileread_def Let_def split: if_splits dest!: fileread_loop_length)

lemma fileread_step_short:
  "fileread_step B f len buf remaining w = Some (Return (n, data, f1, w1))
     \<Longrightarrow> n \<le> len \<and> (n < len \<longrightarrow> end_of_stream f1 w1 \<or> read_error w1)"
  by (cases rule: sys_read_cases[of w "fd f"];
      auto simp: fileread_step_def end_of_stream_def read_error_def Let_def min_def
           split: if_splits)

lemma fileread_loop_short:
  assumes "fileread_loop B f len dl buf remaining w = Some (Inr (n, data, f1, w1))"
  shows "n \<le> len \<and> (n < len \<longrightarrow> end_of_stream f1 w1 \<or> timed_out w1 \<or> read_error w1)"
  using assms
proof (induct rule: fileread_loop_induct)
  case (Return f buf remaining w)
  then show ?case using fileread_step_short by blast
next
  case (Timeout f buf remaining w buf1 remaining1 f2 w2 w3)
  then show ?case using fdwait_timed_out by auto
qed

text \<open>
  Claim C3, as the code has it. \<open>fileread\<close> never returns more than \<open>len\<close> bytes, and
  when it returns fewer, then the end of the stream was reached (a \<open>read\<close> returned zero
  bytes and set \<open>eof\<close>), or the deadline expired (\<open>errno = ETIMEDOUT\<close>), or a \<open>read\<close>
  failed with an error other than would-block, which \<open>errno\<close> reports. The third case
  is missing from the claim.
\<close>

theorem fileread_short_result:
  assumes "fileread B f len deadline w = Some (Inr (n, data, f1, w1))"
  shows "n \<le> len \<and> (n < len \<longrightarrow> end_of_stream f1 w1 \<or> timed_out w1 \<or> read_error w1)"
  using assms
  by (auto simp: fileread_def Let_def split: if_splits dest!: fileread_loop_short)

theorem fileread_short_result_witness:
  "fileread 4096 pipe_file 2 0 (world0\<lparr>reads := [Delivers [7], Delivers []], waits := [FDW_IN]\<rparr>)
     = Some (Inr (1, [7], pipe_file\<lparr>ibuf := 7 # replicate 4095 0, eof := 1\<rparr>,
          world0\<lparr>calls := [SysRead 3 4096 (Transferred [7]), Fdwait 3 FDW_IN 0 FDW_IN,
                            SysRead 3 4096 (Transferred [])]\<rparr>))
   \<and> (1 :: nat) < 2
   \<and> (end_of_stream (pipe_file\<lparr>ibuf := 7 # replicate 4095 0, eof := 1\<rparr>)
         (world0\<lparr>calls := [SysRead 3 4096 (Transferred [7]), Fdwait 3 FDW_IN 0 FDW_IN,
                            SysRead 3 4096 (Transferred [])]\<rparr>)
      \<or> timed_out
         (world0\<lparr>calls := [SysRead 3 4096 (Transferred [7]), Fdwait 3 FDW_IN 0 FDW_IN,
                            SysRead 3 4096 (Transferred [])]\<rparr>)
      \<or> read_error
         (world0\<lparr>calls := [SysRead 3 4096 (Transferred [7]), Fdwait 3 FDW_IN 0 FDW_IN,
                            SysRead 3 4096 (Transferred [])]\<rparr>))"
proof -
  have run: "fileread 4096 pipe_file 2 0
       (world0\<lparr>reads := [Delivers [7], Delivers []], waits := [FDW_IN]\<rparr>)
     = Some (Inr (1, [7], pipe_file\<lparr>ibuf := 7 # replicate 4095 0, eof := 1\<rparr>,
          world0\<lparr>calls := [SysRead 3 4096 (Transferred [7]), Fdwait 3 FDW_IN 0 FDW_IN,
                            SysRead 3 4096 (Transferred [])]\<rparr>))"
    by (simp add: fileread_def fileread_loop.simps fileread_step_def pipe_file_def world0_def
          sys_read_def memcpy_at_def fdwait_def S_ISREG_def S_ISDIR_def)
  have lt: "(1 :: nat) < 2" by simp
  from fileread_short_result [OF run, THEN conjunct2, rule_format, OF lt] run lt
  show ?thesis by blast
qed

text \<open>Claim C3 as stated fails: on a pipe with nothing buffered, a \<open>fileread\<close> of two
  bytes whose \<open>read\<close> fails with \<open>EIO\<close> returns no byte, with \<open>eof\<close> clear and no
  timeout.\<close>

theorem fileread_short_on_error:
  "fileread 4096 pipe_file 2 0 (world0\<lparr>reads := [RFails EIO]\<rparr>)
     = Some (Inr (0, [], pipe_file,
          world0\<lparr>errno := Some EIO, calls := [SysRead 3 4096 (Failed EIO)]\<rparr>))
   \<and> (0 :: nat) < 2
   \<and> \<not> end_of_stream pipe_file
          (world0\<lparr>errno := Some EIO, calls := [SysRead 3 4096 (Failed EIO)]\<rparr>)
   \<and> \<not> timed_out (world0\<lparr>errno := Some EIO, calls := [SysRead 3 4096 (Failed EIO)]\<rparr>)"
  by (simp add: fileread_def fileread_loop.simps fileread_step_def pipe_file_def world0_def
        sys_read_def memcpy_at_def end_of_stream_def timed_out_def)

section \<open>Watermark reads\<close>

lemma filereadlh_step_spec:
  assumes inv: "lo \<le> hi" "received + remaining = hi" "length buf = received" "ilen f = 0"
    and step: "filereadlh_step B f lo hi buf remaining received w = Some s"
  shows "case s of
      Return (n, data, f1, w1) \<Rightarrow>
        (\<exists>X. delivered (calls w1) = delivered (calls w) @ X
           \<and> data @ buffered_input f1 = buf @ X
           \<and> n = min hi (received + length X) \<and> length data = n)
    | Continue (buf1, remaining1, received1, f2, w2) \<Rightarrow>
        (\<exists>X. delivered (calls w2) = delivered (calls w) @ X
           \<and> buf1 = buf @ X
           \<and> received1 + remaining1 = hi \<and> length buf1 = received1 \<and> ilen f2 = 0)"
proof (cases "B < remaining")
  case True
  show ?thesis
  proof (cases rule: sys_read_count_cases[of "fd f" remaining w])
    case Nil
    with step True show ?thesis by (simp add: filereadlh_step_def)
  next
    case (Delivers got rs)
    with step True inv show ?thesis
      by (auto simp: filereadlh_step_def buffered_input_def Let_def split: if_splits)
  next
    case (Fails e rs)
    with step True inv show ?thesis
      by (auto simp: filereadlh_step_def buffered_input_def Let_def split: if_splits)
  qed
next
  case False
  show ?thesis
  proof (cases rule: sys_read_count_cases[of "fd f" B w])
    case Nil
    with step False show ?thesis by (simp add: filereadlh_step_def)
  next
    case (Delivers got rs)
    with step False inv show ?thesis
      by (auto simp: filereadlh_step_def buffered_input_def size_sub_def Let_def
               split: if_splits)
  next
    case (Fails e rs)
    with step False inv show ?thesis
      by (auto simp: filereadlh_step_def buffered_input_def size_sub_def Let_def
               split: if_splits)
  qed
qed

lemma filereadlh_loop_spec:
  assumes "filereadlh_loop B f lo hi dl buf remaining received w = Some (Inr (n, data, f1, w1))"
    and "lo \<le> hi"
  shows "received + remaining = hi \<and> length buf = received \<and> ilen f = 0 \<longrightarrow>
     (\<exists>X. delivered (calls w1) = delivered (calls w) @ X
         \<and> data @ buffered_input f1 = buf @ X
         \<and> n = min hi (received + length X) \<and> length data = n)"
  using assms(1)
proof (induct rule: filereadlh_loop_induct)
  case (Return f buf remaining received w)
  show ?case
  proof
    assume "received + remaining = hi \<and> length buf = received \<and> ilen f = 0"
    then have i: "received + remaining = hi" "length buf = received" "ilen f = 0"
      by simp_all
    from filereadlh_step_spec[OF assms(2) i Return]
    show "\<exists>X. delivered (calls w1) = delivered (calls w) @ X
         \<and> data @ buffered_input f1 = buf @ X
         \<and> n = min hi (received + length X) \<and> length data = n"
      by simp
  qed
next
  case (Timeout f buf remaining received w buf1 remaining1 received1 f2 w2 w3)
  show ?case
  proof
    assume a: "received + remaining = hi \<and> length buf = received \<and> ilen f = 0"
    then have i: "received + remaining = hi" "length buf = received" "ilen f = 0"
      by simp_all
    from filereadlh_step_spec[OF assms(2) i Timeout(1)]
    obtain X where X: "delivered (calls w2) = delivered (calls w) @ X" "buf1 = buf @ X"
      "received1 + remaining1 = hi" "length buf1 = received1" "ilen f2 = 0"
      by (simp only: step.case prod.case) blast
    from Timeout(4) have r: "n = received1" "data = buf1" "f1 = f2"
      "w1 = w3\<lparr>errno := Some ETIMEDOUT\<rparr>" by simp_all
    have "delivered (calls w1) = delivered (calls w) @ X"
      using r X(1) fdwait_delivered[OF Timeout(3)] by simp
    moreover have "data @ buffered_input f1 = buf @ X"
      using r X by (simp add: buffered_input_def)
    moreover have "n = min hi (received + length X)" "length data = n"
      using r X i by auto
    ultimately show "\<exists>X. delivered (calls w1) = delivered (calls w) @ X
         \<and> data @ buffered_input f1 = buf @ X
         \<and> n = min hi (received + length X) \<and> length data = n"
      by blast
  qed
next
  case (Retry f buf remaining received w buf1 remaining1 received1 f2 w2)
  show ?case
  proof
    assume a: "received + remaining = hi \<and> length buf = received \<and> ilen f = 0"
    then have i: "received + remaining = hi" "length buf = received" "ilen f = 0"
      by simp_all
    from filereadlh_step_spec[OF assms(2) i Retry(1)]
    obtain X where X: "delivered (calls w2) = delivered (calls w) @ X" "buf1 = buf @ X"
      "received1 + remaining1 = hi" "length buf1 = received1" "ilen f2 = 0"
      by (simp only: step.case prod.case) blast
    from Retry(3) X(3-5) obtain Y where Y: "delivered (calls w1) = delivered (calls w2) @ Y"
      "data @ buffered_input f1 = buf1 @ Y" "n = min hi (received1 + length Y)"
      "length data = n"
      by auto
    have "delivered (calls w1) = delivered (calls w) @ (X @ Y)"
      "data @ buffered_input f1 = buf @ (X @ Y)"
      "n = min hi (received + length (X @ Y))"
      using X Y i by auto
    with Y(4) show "\<exists>X. delivered (calls w1) = delivered (calls w) @ X
         \<and> data @ buffered_input f1 = buf @ X
         \<and> n = min hi (received + length X) \<and> length data = n"
      by blast
  qed
next
  case (Wake f buf remaining received w buf1 remaining1 received1 f2 w2 rc w3)
  show ?case
  proof
    assume a: "received + remaining = hi \<and> length buf = received \<and> ilen f = 0"
    then have i: "received + remaining = hi" "length buf = received" "ilen f = 0"
      by simp_all
    from filereadlh_step_spec[OF assms(2) i Wake(1)]
    obtain X where X: "delivered (calls w2) = delivered (calls w) @ X" "buf1 = buf @ X"
      "received1 + remaining1 = hi" "length buf1 = received1" "ilen f2 = 0"
      by (simp only: step.case prod.case) blast
    from Wake(5) X(3-5) obtain Y where Y: "delivered (calls w1) = delivered (calls w3) @ Y"
      "data @ buffered_input f1 = buf1 @ Y" "n = min hi (received1 + length Y)"
      "length data = n"
      by auto
    have "delivered (calls w1) = delivered (calls w) @ (X @ Y)"
      "data @ buffered_input f1 = buf @ (X @ Y)"
      "n = min hi (received + length (X @ Y))"
      using X Y i fdwait_delivered[OF Wake(3)] by auto
    with Y(4) show "\<exists>X. delivered (calls w1) = delivered (calls w) @ X
         \<and> data @ buffered_input f1 = buf @ X
         \<and> n = min hi (received + length X) \<and> length data = n"
      by blast
  qed
qed

lemma filereadlh_spec:
  assumes "lo \<le> hi" and "ifirst f + ilen f \<le> length (ibuf f)"
    and run: "filereadlh B f lo hi dl w = Some (Inr (n, data, f1, w1))"
  shows "\<exists>X. delivered (calls w1) = delivered (calls w) @ X
         \<and> data @ buffered_input f1 = buffered_input f @ X
         \<and> n = min hi (ilen f + length X) \<and> length data = n"
proof -
  have len: "length (buffered_input f) = ilen f"
    using assms(2) by (simp add: buffered_input_def)
  consider (within) "lo \<le> ilen f" "ilen f \<le> hi"
    | (above) "hi < ilen f"
    | (below) "ilen f < lo" "ilen f < hi"
    using assms(1) by linarith
  then show ?thesis
  proof cases
    case within
    with run have "n = ilen f" "data = buffered_input f" "f1 = f\<lparr>ifirst := 0, ilen := 0\<rparr>"
      "w1 = w\<lparr>errno := None\<rparr>"
      by (auto simp: filereadlh_def buffered_input_def)
    with within len show ?thesis by (simp add: buffered_input_def)
  next
    case above
    with run assms(1) have r: "n = hi" "data = take hi (drop (ifirst f) (ibuf f))"
      "f1 = f\<lparr>ifirst := ifirst f + hi, ilen := ilen f - hi\<rparr>" "w1 = w\<lparr>errno := None\<rparr>"
      by (auto simp: filereadlh_def)
    have "data @ buffered_input f1 = buffered_input f"
      using r above take_take_drop[of hi "ilen f" "drop (ifirst f) (ibuf f)"]
      by (simp add: buffered_input_def add.commute)
    moreover have "length data = n" using r above assms(2) by simp
    ultimately show ?thesis using r above by simp
  next
    case below
    with run have
      loop: "filereadlh_loop B (f\<lparr>ifirst := 0, ilen := 0\<rparr>) lo hi dl
            (buffered_input f) (hi - ilen f) (ilen f) w
          = Some (Inr (n, data, f1, w1))"
      by (auto simp: filereadlh_def Let_def buffered_input_def split: if_splits)
    from filereadlh_loop_spec[OF loop assms(1)] below len show ?thesis by simp
  qed
qed

lemma filereadlh_step_short:
  "filereadlh_step B f lo hi buf remaining received w = Some (Return (n, data, f1, w1))
     \<Longrightarrow> lo \<le> hi \<Longrightarrow> n < lo \<longrightarrow> end_of_stream f1 w1 \<or> read_error w1"
  by (cases rule: sys_read_cases[of w "fd f"];
      auto simp: filereadlh_step_def end_of_stream_def read_error_def Let_def min_def
           split: if_splits)

lemma filereadlh_loop_short:
  assumes "filereadlh_loop B f lo hi dl buf remaining received w = Some (Inr (n, data, f1, w1))"
    and "lo \<le> hi"
  shows "n < lo \<longrightarrow> end_of_stream f1 w1 \<or> timed_out w1 \<or> read_error w1"
  using assms(1)
proof (induct rule: filereadlh_loop_induct)
  case (Return f buf remaining received w)
  then show ?case using filereadlh_step_short assms(2) by blast
next
  case (Timeout f buf remaining received w buf1 remaining1 received1 f2 w2 w3)
  then show ?case using fdwait_timed_out by auto
qed

lemma filereadlh_short:
  assumes "filereadlh B f lo hi dl w = Some (Inr (n, data, f1, w1))" and "lo \<le> hi"
  shows "n < lo \<longrightarrow> end_of_stream f1 w1 \<or> timed_out w1 \<or> read_error w1"
  using assms
  by (auto simp: filereadlh_def Let_def split: if_splits dest!: filereadlh_loop_short)

text \<open>
  Claim C4, as the code has it. For \<open>lowwater \<le> highwater\<close>, \<open>filereadlh\<close> returns at most
  \<open>highwater\<close> bytes; when it returns fewer than \<open>lowwater\<close>, then the end of the stream
  was reached, or the deadline expired, or a \<open>read\<close> failed with an error other than
  would-block (the case the claim leaves out). The count is the number of bytes stored
  for the caller, and it is the smaller of \<open>highwater\<close> and the total of the bytes that
  were buffered at the call and the bytes the \<open>read\<close> calls delivered during it; the
  bytes returned followed by the bytes left in the input buffer are exactly those
  bytes, in order. So when a \<open>read\<close> takes the total past \<open>highwater\<close>, exactly
  \<open>highwater\<close> bytes are returned and the excess stays in the input buffer. The bound
  \<open>highwater \<le> MILL_FILE_BUFLEN\<close> of the claim is not needed. The second hypothesis says
  that the buffered input lies within the array \<open>ibuf\<close>.
\<close>

theorem filereadlh_watermarks:
  assumes "lowwater \<le> highwater" and "ifirst f + ilen f \<le> length (ibuf f)"
    and "filereadlh B f lowwater highwater deadline w = Some (Inr (n, data, f1, w1))"
  shows "n \<le> highwater
    \<and> (n < lowwater \<longrightarrow> end_of_stream f1 w1 \<or> timed_out w1 \<or> read_error w1)
    \<and> length data = n
    \<and> n = min highwater (ilen f + length (delivered_since w w1))
    \<and> data @ buffered_input f1 = buffered_input f @ delivered_since w w1"
proof -
  from filereadlh_spec[OF assms] obtain X where
    X: "delivered (calls w1) = delivered (calls w) @ X"
      "data @ buffered_input f1 = buffered_input f @ X"
      "n = min highwater (ilen f + length X)" "length data = n"
    by blast
  from X(1) have "delivered_since w w1 = X" by (simp add: delivered_since_def)
  with X filereadlh_short[OF assms(3) assms(1)] show ?thesis by simp
qed

theorem filereadlh_watermarks_witness:
  "(2 :: nat) \<le> 3
   \<and> ifirst pipe_file + ilen pipe_file \<le> length (ibuf pipe_file)
   \<and> filereadlh 4096 pipe_file 2 3 0 (world0\<lparr>reads := [Delivers [1, 2, 3, 4]]\<rparr>)
     = Some (Inr (3, [1, 2, 3],
          pipe_file\<lparr>ibuf := [1, 2, 3, 4] @ replicate 4092 0, ifirst := 3, ilen := 1\<rparr>,
          world0\<lparr>calls := [SysRead 3 4096 (Transferred [1, 2, 3, 4])]\<rparr>))
   \<and> (3 :: nat) = min 3 (ilen pipe_file + length [1, 2, 3, 4 :: byte])
   \<and> [1, 2, 3] @ buffered_input
         (pipe_file\<lparr>ibuf := [1, 2, 3, 4] @ replicate 4092 0, ifirst := 3, ilen := 1\<rparr>)
     = buffered_input pipe_file @ [1, 2, 3, 4]
   \<and> filereadlh 4096 pipe_file 2 3 0
        (world0\<lparr>reads := [Delivers [1], Delivers []], waits := [FDW_IN]\<rparr>)
     = Some (Inr (1, [1], pipe_file\<lparr>ibuf := 1 # replicate 4095 0, eof := 1\<rparr>,
          world0\<lparr>calls := [SysRead 3 4096 (Transferred [1]), Fdwait 3 FDW_IN 0 FDW_IN,
                            SysRead 3 4096 (Transferred [])]\<rparr>))
   \<and> (1 :: nat) < 2
   \<and> (end_of_stream (pipe_file\<lparr>ibuf := 1 # replicate 4095 0, eof := 1\<rparr>)
         (world0\<lparr>calls := [SysRead 3 4096 (Transferred [1]), Fdwait 3 FDW_IN 0 FDW_IN,
                            SysRead 3 4096 (Transferred [])]\<rparr>)
      \<or> timed_out
         (world0\<lparr>calls := [SysRead 3 4096 (Transferred [1]), Fdwait 3 FDW_IN 0 FDW_IN,
                            SysRead 3 4096 (Transferred [])]\<rparr>)
      \<or> read_error
         (world0\<lparr>calls := [SysRead 3 4096 (Transferred [1]), Fdwait 3 FDW_IN 0 FDW_IN,
                            SysRead 3 4096 (Transferred [])]\<rparr>))"
proof -
  have le: "(2 :: nat) \<le> 3" by simp
  have wf: "ifirst pipe_file + ilen pipe_file \<le> length (ibuf pipe_file)"
    by (simp add: pipe_file_def)
  have over: "filereadlh 4096 pipe_file 2 3 0 (world0\<lparr>reads := [Delivers [1, 2, 3, 4]]\<rparr>)
     = Some (Inr (3, [1, 2, 3],
          pipe_file\<lparr>ibuf := [1, 2, 3, 4] @ replicate 4092 0, ifirst := 3, ilen := 1\<rparr>,
          world0\<lparr>calls := [SysRead 3 4096 (Transferred [1, 2, 3, 4])]\<rparr>))"
    by (simp add: filereadlh_def filereadlh_loop.simps filereadlh_step_def pipe_file_def
          world0_def sys_read_def memcpy_at_def size_sub_def)
  have short: "filereadlh 4096 pipe_file 2 3 0
        (world0\<lparr>reads := [Delivers [1], Delivers []], waits := [FDW_IN]\<rparr>)
     = Some (Inr (1, [1], pipe_file\<lparr>ibuf := 1 # replicate 4095 0, eof := 1\<rparr>,
          world0\<lparr>calls := [SysRead 3 4096 (Transferred [1]), Fdwait 3 FDW_IN 0 FDW_IN,
                            SysRead 3 4096 (Transferred [])]\<rparr>))"
    by (simp add: filereadlh_def filereadlh_loop.simps filereadlh_step_def pipe_file_def
          world0_def sys_read_def memcpy_at_def size_sub_def fdwait_def S_ISREG_def S_ISDIR_def)
  have since: "delivered_since (world0\<lparr>reads := [Delivers [1, 2, 3, 4]]\<rparr>)
      (world0\<lparr>calls := [SysRead 3 4096 (Transferred [1, 2, 3, 4])]\<rparr>) = [1, 2, 3, 4]"
    by (simp add: delivered_since_def delivered_def world0_def)
  have lt: "(1 :: nat) < 2" by simp
  note a = filereadlh_watermarks [OF le wf over, unfolded since]
  note b = filereadlh_watermarks [OF le wf short]
  from a b [THEN conjunct2, THEN conjunct1, rule_format, OF lt] le wf over short lt
  show ?thesis by blast
qed

text \<open>Claim C4 as stated fails: with \<open>lowwater = 2\<close> and \<open>highwater = 3\<close> on a pipe with
  nothing buffered, a \<open>filereadlh\<close> whose \<open>read\<close> fails with \<open>EIO\<close> returns no byte, with
  \<open>eof\<close> clear and no timeout.\<close>

theorem filereadlh_short_on_error:
  "(2 :: nat) \<le> 3 \<and> (3 :: nat) \<le> 4096
   \<and> filereadlh 4096 pipe_file 2 3 0 (world0\<lparr>reads := [RFails EIO]\<rparr>)
     = Some (Inr (0, [], pipe_file,
          world0\<lparr>errno := Some EIO, calls := [SysRead 3 4096 (Failed EIO)]\<rparr>))
   \<and> (0 :: nat) < 2
   \<and> \<not> end_of_stream pipe_file
          (world0\<lparr>errno := Some EIO, calls := [SysRead 3 4096 (Failed EIO)]\<rparr>)
   \<and> \<not> timed_out (world0\<lparr>errno := Some EIO, calls := [SysRead 3 4096 (Failed EIO)]\<rparr>)"
  by (simp add: filereadlh_def filereadlh_loop.simps filereadlh_step_def pipe_file_def
        world0_def sys_read_def memcpy_at_def end_of_stream_def timed_out_def)

section \<open>When the task is suspended\<close>

lemma fdwait_only_after_head: "fdwait_only_after J (c # cs) \<Longrightarrow> \<not> is_fdwait c"
  by (cases cs) simp_all

lemma fdwait_only_after_Cons:
  "\<not> is_fdwait c \<Longrightarrow> fdwait_only_after J cs \<Longrightarrow> fdwait_only_after J (c # cs)"
  by (cases cs) (auto dest: fdwait_only_after_head)

lemma fdwait_only_after_Cons_wait:
  "\<not> is_fdwait c \<Longrightarrow> J c \<Longrightarrow> fdwait_only_after J cs
     \<Longrightarrow> fdwait_only_after J (c # Fdwait d ev dl rc # cs)"
  by simp

lemma fdwait_only_after_append:
  "fdwait_only_after J xs \<Longrightarrow> fdwait_only_after J ys \<Longrightarrow> fdwait_only_after J (xs @ ys)"
proof (induction J xs rule: fdwait_only_after.induct)
  case (1 J)
  then show ?case by simp
next
  case (2 J c)
  then show ?case by (simp add: fdwait_only_after_Cons)
next
  case (3 J c c' cs)
  then show ?case by (auto split: if_splits)
qed

lemma fileflush_loop_trace:
  assumes "fileflush_loop f dl pos remaining w = Some (Inr (f1, w1))"
  shows "\<exists>tr. calls w1 = calls w @ tr \<and> fdwait_only_after (would_block_on (mode f)) tr"
  using assms
proof (induct rule: fileflush_loop_induct)
  case (Done pos w)
  then show ?case by simp
next
  case (Error pos remaining w w2)
  from sys_write_call[OF Error(2)] obtain c where
    "calls w2 = calls w @ [c]" "\<not> is_fdwait c" by blast
  with Error(4) show ?case by simp
next
  case (Timeout pos remaining w w2 w3)
  from sys_write_call[OF Timeout(2)] Timeout(3) obtain c where
    c: "calls w2 = calls w @ [c]" "\<not> is_fdwait c" "would_block c" by blast
  from fdwait_Some[OF Timeout(5)] c(1)
  have "calls w3 = calls w @ [c, Fdwait (fd f) FDW_OUT dl FDW_ZERO]" by simp
  with c Timeout(4,6) show ?case
    by (simp add: would_block_on_def skips_fdwait_def)
next
  case (Retry pos remaining w w2)
  from sys_write_call[OF Retry(2)] obtain c where
    c: "calls w2 = calls w @ [c]" "\<not> is_fdwait c" by blast
  from Retry(5) obtain tr where
    tr: "calls w1 = calls w2 @ tr" "fdwait_only_after (would_block_on (mode f)) tr" by blast
  from c tr have "calls w1 = calls w @ (c # tr)" by simp
  with c tr fdwait_only_after_Cons show ?case by blast
next
  case (Wake pos remaining w w2 w3)
  from sys_write_call[OF Wake(2)] Wake(3) obtain c where
    c: "calls w2 = calls w @ [c]" "\<not> is_fdwait c" "would_block c" by blast
  from Wake(6) obtain tr where
    tr: "calls w1 = calls w3 @ tr" "fdwait_only_after (would_block_on (mode f)) tr" by blast
  from fdwait_Some[OF Wake(5)] c tr
  have "calls w1 = calls w @ (c # Fdwait (fd f) FDW_OUT dl FDW_OUT # tr)" by simp
  moreover have "fdwait_only_after (would_block_on (mode f))
      (c # Fdwait (fd f) FDW_OUT dl FDW_OUT # tr)"
    using c tr Wake(4) by (simp add: would_block_on_def skips_fdwait_def)
  ultimately show ?case by blast
next
  case (Progress pos remaining w sz w2)
  from sys_write_call[OF Progress(2)] obtain c where
    c: "calls w2 = calls w @ [c]" "\<not> is_fdwait c" by blast
  from Progress(4) obtain tr where
    tr: "calls w1 = calls w2 @ tr" "fdwait_only_after (would_block_on (mode f)) tr" by blast
  from c tr have "calls w1 = calls w @ (c # tr)" by simp
  with c tr fdwait_only_after_Cons show ?case by blast
qed

lemma filewrite_loop_trace:
  assumes "filewrite_loop f buf len dl pos remaining w = Some (Inr (n, f1, w1))"
  shows "\<exists>tr. calls w1 = calls w @ tr \<and> fdwait_only_after (would_block_on (mode f)) tr"
  using assms
proof (induct rule: filewrite_loop_induct)
  case (Done pos w)
  then show ?case by simp
next
  case (Error pos remaining w w2)
  from sys_write_call[OF Error(2)] obtain c where
    "calls w2 = calls w @ [c]" "\<not> is_fdwait c" by blast
  with Error(4) show ?case by simp
next
  case (Timeout pos remaining w w2 w3)
  from sys_write_call[OF Timeout(2)] Timeout(3) obtain c where
    c: "calls w2 = calls w @ [c]" "\<not> is_fdwait c" "would_block c" by blast
  from fdwait_Some[OF Timeout(5)] c(1)
  have "calls w3 = calls w @ [c, Fdwait (fd f) FDW_OUT dl FDW_ZERO]" by simp
  with c Timeout(4,6) show ?case
    by (simp add: would_block_on_def skips_fdwait_def)
next
  case (Retry pos remaining w w2)
  from sys_write_call[OF Retry(2)] obtain c where
    c: "calls w2 = calls w @ [c]" "\<not> is_fdwait c" by blast
  from Retry(5) obtain tr where
    tr: "calls w1 = calls w2 @ tr" "fdwait_only_after (would_block_on (mode f)) tr" by blast
  from c tr have "calls w1 = calls w @ (c # tr)" by simp
  with c tr fdwait_only_after_Cons show ?case by blast
next
  case (Wake pos remaining w w2 w3)
  from sys_write_call[OF Wake(2)] Wake(3) obtain c where
    c: "calls w2 = calls w @ [c]" "\<not> is_fdwait c" "would_block c" by blast
  from Wake(6) obtain tr where
    tr: "calls w1 = calls w3 @ tr" "fdwait_only_after (would_block_on (mode f)) tr" by blast
  from fdwait_Some[OF Wake(5)] c tr
  have "calls w1 = calls w @ (c # Fdwait (fd f) FDW_OUT dl FDW_OUT # tr)" by simp
  moreover have "fdwait_only_after (would_block_on (mode f))
      (c # Fdwait (fd f) FDW_OUT dl FDW_OUT # tr)"
    using c tr Wake(4) by (simp add: would_block_on_def skips_fdwait_def)
  ultimately show ?case by blast
next
  case (Progress pos remaining w sz w2)
  from sys_write_call[OF Progress(2)] obtain c where
    c: "calls w2 = calls w @ [c]" "\<not> is_fdwait c" by blast
  from Progress(4) obtain tr where
    tr: "calls w1 = calls w2 @ tr" "fdwait_only_after (would_block_on (mode f)) tr" by blast
  from c tr have "calls w1 = calls w @ (c # tr)" by simp
  with c tr fdwait_only_after_Cons show ?case by blast
qed

lemma fileflush_trace:
  "fileflush f dl w = Some (Inr (f1, w1))
     \<Longrightarrow> \<exists>tr. calls w1 = calls w @ tr \<and> fdwait_only_after (would_block_on (mode f)) tr"
  by (auto simp: fileflush_def split: if_splits dest: fileflush_loop_trace)

lemma filewrite_trace:
  assumes "filewrite B f buf dl w = Some (Inr (n, f1, w1))"
  shows "\<exists>tr. calls w1 = calls w @ tr \<and> fdwait_only_after (would_block_on (mode f)) tr"
proof (cases "olen f + length buf \<le> B")
  case True
  with assms show ?thesis by (auto simp: filewrite_def Let_def)
next
  case False
  with assms obtain f2 w2 where
    fl: "fileflush f dl w = Some (Inr (f2, w2))" and
    rest: "(if errno w2 \<noteq> None then Some (Inr (0, f2, w2))
            else if olen f2 + length buf \<le> B then
              Some (Inr (length buf,
                         f2\<lparr>obuf := memcpy_at (obuf f2) (olen f2) buf,
                            olen := olen f2 + length buf\<rparr>,
                         w2\<lparr>errno := None\<rparr>))
            else filewrite_loop f2 buf (length buf) dl 0 (length buf) w2)
           = Some (Inr (n, f1, w1))"
    by (auto simp: filewrite_def Let_def split: bind_splits sum.splits)
  from fileflush_trace[OF fl] obtain tr where
    tr: "calls w2 = calls w @ tr" "fdwait_only_after (would_block_on (mode f)) tr" by blast
  have "\<exists>tr'. calls w1 = calls w2 @ tr' \<and> fdwait_only_after (would_block_on (mode f2)) tr'"
    using rest by (auto split: if_splits dest: filewrite_loop_trace)
  then obtain tr' where
    tr': "calls w1 = calls w2 @ tr'" "fdwait_only_after (would_block_on (mode f)) tr'"
    using fileflush_mode[OF fl] by auto
  from tr tr' have "calls w1 = calls w @ (tr @ tr')" by simp
  with tr tr' fdwait_only_after_append show ?thesis by blast
qed

lemma fileread_step_call:
  assumes "fileread_step B f len buf remaining w = Some s"
  shows "case s of
      Return (n, data, f1, w1) \<Rightarrow> (\<exists>c. calls w1 = calls w @ [c] \<and> \<not> is_fdwait c)
    | Continue (buf1, remaining1, f2, w2) \<Rightarrow>
        (\<exists>c. calls w2 = calls w @ [c] \<and> \<not> is_fdwait c \<and> unfinished_read c)
        \<and> mode f2 = mode f \<and> fd f2 = fd f"
  using assms
  by (cases rule: sys_read_cases[of w "fd f"];
      auto simp: fileread_step_def Let_def min_def split: if_splits)

lemma filereadlh_step_call:
  assumes "filereadlh_step B f lo hi buf remaining received w = Some s"
  shows "case s of
      Return (n, data, f1, w1) \<Rightarrow> (\<exists>c. calls w1 = calls w @ [c] \<and> \<not> is_fdwait c)
    | Continue (buf1, remaining1, received1, f2, w2) \<Rightarrow>
        (\<exists>c. calls w2 = calls w @ [c] \<and> \<not> is_fdwait c \<and> unfinished_read c)
        \<and> mode f2 = mode f \<and> fd f2 = fd f"
  using assms
  by (cases rule: sys_read_cases[of w "fd f"];
      auto simp: filereadlh_step_def Let_def min_def split: if_splits)

lemma fileread_loop_trace:
  assumes "fileread_loop B f len dl buf remaining w = Some (Inr (n, data, f1, w1))"
  shows "\<exists>tr. calls w1 = calls w @ tr \<and> fdwait_only_after (unfinished_read_on (mode f)) tr"
  using assms
proof (induct rule: fileread_loop_induct)
  case (Return f buf remaining w)
  from fileread_step_call[OF Return] show ?case by auto
next
  case (Timeout f buf remaining w buf1 remaining1 f2 w2 w3)
  from fileread_step_call[OF Timeout(1)] obtain c where
    c: "calls w2 = calls w @ [c]" "\<not> is_fdwait c" "unfinished_read c" "mode f2 = mode f"
    by auto
  from fdwait_Some[OF Timeout(3)] c(1)
  have "calls w3 = calls w @ [c, Fdwait (fd f2) FDW_IN dl FDW_ZERO]" by simp
  with c Timeout(2,4) show ?case
    by (simp add: unfinished_read_on_def skips_fdwait_def)
next
  case (Retry f buf remaining w buf1 remaining1 f2 w2)
  from fileread_step_call[OF Retry(1)] obtain c where
    c: "calls w2 = calls w @ [c]" "\<not> is_fdwait c" "mode f2 = mode f" by auto
  from Retry(3) c(3) obtain tr where
    tr: "calls w1 = calls w2 @ tr" "fdwait_only_after (unfinished_read_on (mode f)) tr"
    by auto
  from c tr have "calls w1 = calls w @ (c # tr)" by simp
  with c tr fdwait_only_after_Cons show ?case by blast
next
  case (Wake f buf remaining w buf1 remaining1 f2 w2 rc w3)
  from fileread_step_call[OF Wake(1)] obtain c where
    c: "calls w2 = calls w @ [c]" "\<not> is_fdwait c" "unfinished_read c" "mode f2 = mode f"
    by auto
  from Wake(5) c(4) obtain tr where
    tr: "calls w1 = calls w3 @ tr" "fdwait_only_after (unfinished_read_on (mode f)) tr"
    by auto
  from fdwait_Some[OF Wake(3)] c tr
  have "calls w1 = calls w @ (c # Fdwait (fd f2) FDW_IN dl rc # tr)" by simp
  moreover have "fdwait_only_after (unfinished_read_on (mode f))
      (c # Fdwait (fd f2) FDW_IN dl rc # tr)"
    using c tr Wake(2) by (simp add: unfinished_read_on_def skips_fdwait_def)
  ultimately show ?case by blast
qed

lemma filereadlh_loop_trace:
  assumes "filereadlh_loop B f lo hi dl buf remaining received w = Some (Inr (n, data, f1, w1))"
  shows "\<exists>tr. calls w1 = calls w @ tr \<and> fdwait_only_after (unfinished_read_on (mode f)) tr"
  using assms
proof (induct rule: filereadlh_loop_induct)
  case (Return f buf remaining received w)
  from filereadlh_step_call[OF Return] show ?case by auto
next
  case (Timeout f buf remaining received w buf1 remaining1 received1 f2 w2 w3)
  from filereadlh_step_call[OF Timeout(1)] obtain c where
    c: "calls w2 = calls w @ [c]" "\<not> is_fdwait c" "unfinished_read c" "mode f2 = mode f"
    by auto
  from fdwait_Some[OF Timeout(3)] c(1)
  have "calls w3 = calls w @ [c, Fdwait (fd f2) FDW_IN dl FDW_ZERO]" by simp
  with c Timeout(2,4) show ?case
    by (simp add: unfinished_read_on_def skips_fdwait_def)
next
  case (Retry f buf remaining received w buf1 remaining1 received1 f2 w2)
  from filereadlh_step_call[OF Retry(1)] obtain c where
    c: "calls w2 = calls w @ [c]" "\<not> is_fdwait c" "mode f2 = mode f" by auto
  from Retry(3) c(3) obtain tr where
    tr: "calls w1 = calls w2 @ tr" "fdwait_only_after (unfinished_read_on (mode f)) tr"
    by auto
  from c tr have "calls w1 = calls w @ (c # tr)" by simp
  with c tr fdwait_only_after_Cons show ?case by blast
next
  case (Wake f buf remaining received w buf1 remaining1 received1 f2 w2 rc w3)
  from filereadlh_step_call[OF Wake(1)] obtain c where
    c: "calls w2 = calls w @ [c]" "\<not> is_fdwait c" "unfinished_read c" "mode f2 = mode f"
    by auto
  from Wake(5) c(4) obtain tr where
    tr: "calls w1 = calls w3 @ tr" "fdwait_only_after (unfinished_read_on (mode f)) tr"
    by auto
  from fdwait_Some[OF Wake(3)] c tr
  have "calls w1 = calls w @ (c # Fdwait (fd f2) FDW_IN dl rc # tr)" by simp
  moreover have "fdwait_only_after (unfinished_read_on (mode f))
      (c # Fdwait (fd f2) FDW_IN dl rc # tr)"
    using c tr Wake(2) by (simp add: unfinished_read_on_def skips_fdwait_def)
  ultimately show ?case by blast
qed

lemma fileread_trace:
  "fileread B f len dl w = Some (Inr (n, data, f1, w1))
     \<Longrightarrow> \<exists>tr. calls w1 = calls w @ tr \<and> fdwait_only_after (unfinished_read_on (mode f)) tr"
  by (auto simp: fileread_def Let_def split: if_splits dest: fileread_loop_trace)

lemma filereadlh_trace:
  "filereadlh B f lo hi dl w = Some (Inr (n, data, f1, w1))
     \<Longrightarrow> \<exists>tr. calls w1 = calls w @ tr \<and> fdwait_only_after (unfinished_read_on (mode f)) tr"
  by (auto simp: filereadlh_def Let_def split: if_splits dest: filereadlh_loop_trace)

lemma calls_since_trace:
  "\<exists>tr. calls w1 = calls w @ tr \<and> fdwait_only_after J tr
     \<Longrightarrow> fdwait_only_after J (calls_since w w1)"
  by (auto simp: calls_since_def)

text \<open>A wait in a read loop finds the request unfinished: \<open>remaining\<close> is not zero in
  \<open>fileread\<close>, and \<open>received\<close> is below \<open>lowwater\<close> in \<open>filereadlh\<close>.\<close>

lemma fileread_step_below:
  assumes inv: "had + remaining = len"
    and step: "fileread_step B f len buf remaining w = Some s"
  shows "case s of
      Return (n, data, f1, w1) \<Rightarrow> (\<exists>c. calls w1 = calls w @ [c] \<and> \<not> is_fdwait c)
    | Continue (buf1, remaining1, f2, w2) \<Rightarrow>
        (\<exists>c. calls w2 = calls w @ [c] \<and> \<not> is_fdwait c
           \<and> had + length (read_bytes c) + remaining1 = len \<and> 0 < remaining1)"
proof (cases "B < remaining")
  case True
  show ?thesis
  proof (cases rule: sys_read_count_cases[of "fd f" remaining w])
    case Nil
    with step True show ?thesis by (simp add: fileread_step_def)
  next
    case (Delivers got rs)
    with step True inv show ?thesis
      by (auto simp: fileread_step_def Let_def split: if_splits)
  next
    case (Fails e rs)
    with step True inv show ?thesis
      by (auto simp: fileread_step_def Let_def split: if_splits)
  qed
next
  case False
  show ?thesis
  proof (cases rule: sys_read_count_cases[of "fd f" B w])
    case Nil
    with step False show ?thesis by (simp add: fileread_step_def)
  next
    case (Delivers got rs)
    with step False inv show ?thesis
      by (auto simp: fileread_step_def Let_def split: if_splits)
  next
    case (Fails e rs)
    with step False inv show ?thesis
      by (auto simp: fileread_step_def Let_def split: if_splits)
  qed
qed

lemma filereadlh_step_below:
  assumes step: "filereadlh_step B f lo hi buf remaining received w = Some s"
  shows "case s of
      Return (n, data, f1, w1) \<Rightarrow> (\<exists>c. calls w1 = calls w @ [c] \<and> \<not> is_fdwait c)
    | Continue (buf1, remaining1, received1, f2, w2) \<Rightarrow>
        (\<exists>c. calls w2 = calls w @ [c] \<and> \<not> is_fdwait c
           \<and> received1 = received + length (read_bytes c) \<and> received1 < lo)"
proof (cases "B < remaining")
  case True
  show ?thesis
  proof (cases rule: sys_read_count_cases[of "fd f" remaining w])
    case Nil
    with step True show ?thesis by (simp add: filereadlh_step_def)
  next
    case (Delivers got rs)
    with step True show ?thesis
      by (auto simp: filereadlh_step_def Let_def split: if_splits)
  next
    case (Fails e rs)
    with step True show ?thesis
      by (auto simp: filereadlh_step_def Let_def split: if_splits)
  qed
next
  case False
  show ?thesis
  proof (cases rule: sys_read_count_cases[of "fd f" B w])
    case Nil
    with step False show ?thesis by (simp add: filereadlh_step_def)
  next
    case (Delivers got rs)
    with step False show ?thesis
      by (auto simp: filereadlh_step_def Let_def split: if_splits)
  next
    case (Fails e rs)
    with step False show ?thesis
      by (auto simp: filereadlh_step_def Let_def split: if_splits)
  qed
qed

lemma fileread_loop_below:
  assumes "fileread_loop B f len dl buf remaining w = Some (Inr (n, data, f1, w1))"
  shows "\<forall>had. had + remaining = len \<longrightarrow>
           (\<exists>tr. calls w1 = calls w @ tr \<and> fdwait_only_below len had tr)"
  using assms
proof (induct rule: fileread_loop_induct)
  case (Return f buf remaining w)
  show ?case
  proof (intro allI impI)
    fix had assume a: "had + remaining = len"
    from fileread_step_below[OF a Return] obtain c where
      "calls w1 = calls w @ [c]" "\<not> is_fdwait c"
      by (simp only: step.case prod.case) blast
    then show "\<exists>tr. calls w1 = calls w @ tr \<and> fdwait_only_below len had tr"
      by simp
  qed
next
  case (Timeout f buf remaining w buf1 remaining1 f2 w2 w3)
  show ?case
  proof (intro allI impI)
    fix had assume a: "had + remaining = len"
    from fileread_step_below[OF a Timeout(1)] obtain c where
      c: "calls w2 = calls w @ [c]" "\<not> is_fdwait c"
        "had + length (read_bytes c) + remaining1 = len" "0 < remaining1"
      by (simp only: step.case prod.case) blast
    from fdwait_Some[OF Timeout(3)] c(1) Timeout(4)
    have "calls w1 = calls w @ [c, Fdwait (fd f2) FDW_IN dl FDW_ZERO]" by simp
    moreover have "fdwait_only_below len had [c, Fdwait (fd f2) FDW_IN dl FDW_ZERO]"
      using c by simp
    ultimately show "\<exists>tr. calls w1 = calls w @ tr \<and> fdwait_only_below len had tr"
      by blast
  qed
next
  case (Retry f buf remaining w buf1 remaining1 f2 w2)
  show ?case
  proof (intro allI impI)
    fix had assume a: "had + remaining = len"
    from fileread_step_below[OF a Retry(1)] obtain c where
      c: "calls w2 = calls w @ [c]" "\<not> is_fdwait c"
        "had + length (read_bytes c) + remaining1 = len" "0 < remaining1"
      by (simp only: step.case prod.case) blast
    from Retry(3) c(3) obtain tr where
      tr: "calls w1 = calls w2 @ tr"
        "fdwait_only_below len (had + length (read_bytes c)) tr"
      by blast
    from c tr have "calls w1 = calls w @ (c # tr)" "fdwait_only_below len had (c # tr)"
      by simp_all
    then show "\<exists>tr. calls w1 = calls w @ tr \<and> fdwait_only_below len had tr"
      by blast
  qed
next
  case (Wake f buf remaining w buf1 remaining1 f2 w2 rc w3)
  show ?case
  proof (intro allI impI)
    fix had assume a: "had + remaining = len"
    from fileread_step_below[OF a Wake(1)] obtain c where
      c: "calls w2 = calls w @ [c]" "\<not> is_fdwait c"
        "had + length (read_bytes c) + remaining1 = len" "0 < remaining1"
      by (simp only: step.case prod.case) blast
    from Wake(5) c(3) obtain tr where
      tr: "calls w1 = calls w3 @ tr"
        "fdwait_only_below len (had + length (read_bytes c)) tr"
      by blast
    from fdwait_Some[OF Wake(3)] c tr
    have "calls w1 = calls w @ (c # Fdwait (fd f2) FDW_IN dl rc # tr)"
      "fdwait_only_below len had (c # Fdwait (fd f2) FDW_IN dl rc # tr)"
      by simp_all
    then show "\<exists>tr. calls w1 = calls w @ tr \<and> fdwait_only_below len had tr"
      by blast
  qed
qed

lemma filereadlh_loop_below:
  assumes "filereadlh_loop B f lo hi dl buf remaining received w = Some (Inr (n, data, f1, w1))"
  shows "\<exists>tr. calls w1 = calls w @ tr \<and> fdwait_only_below lo received tr"
  using assms
proof (induct rule: filereadlh_loop_induct)
  case (Return f buf remaining received w)
  from filereadlh_step_below[OF Return] obtain c where
    "calls w1 = calls w @ [c]" "\<not> is_fdwait c"
    by (simp only: step.case prod.case) blast
  then show ?case by simp
next
  case (Timeout f buf remaining received w buf1 remaining1 received1 f2 w2 w3)
  from filereadlh_step_below[OF Timeout(1)] obtain c where
    c: "calls w2 = calls w @ [c]" "\<not> is_fdwait c"
      "received1 = received + length (read_bytes c)" "received1 < lo"
    by (simp only: step.case prod.case) blast
  from fdwait_Some[OF Timeout(3)] c(1) Timeout(4)
  have "calls w1 = calls w @ [c, Fdwait (fd f2) FDW_IN dl FDW_ZERO]" by simp
  moreover have "fdwait_only_below lo received [c, Fdwait (fd f2) FDW_IN dl FDW_ZERO]"
    using c by simp
  ultimately show ?case by blast
next
  case (Retry f buf remaining received w buf1 remaining1 received1 f2 w2)
  from filereadlh_step_below[OF Retry(1)] obtain c where
    c: "calls w2 = calls w @ [c]" "\<not> is_fdwait c"
      "received1 = received + length (read_bytes c)" "received1 < lo"
    by (simp only: step.case prod.case) blast
  from Retry(3) obtain tr where
    tr: "calls w1 = calls w2 @ tr" "fdwait_only_below lo received1 tr"
    by blast
  from c tr have "calls w1 = calls w @ (c # tr)" "fdwait_only_below lo received (c # tr)"
    by simp_all
  then show ?case by blast
next
  case (Wake f buf remaining received w buf1 remaining1 received1 f2 w2 rc w3)
  from filereadlh_step_below[OF Wake(1)] obtain c where
    c: "calls w2 = calls w @ [c]" "\<not> is_fdwait c"
      "received1 = received + length (read_bytes c)" "received1 < lo"
    by (simp only: step.case prod.case) blast
  from Wake(5) obtain tr where
    tr: "calls w1 = calls w3 @ tr" "fdwait_only_below lo received1 tr"
    by blast
  from fdwait_Some[OF Wake(3)] c tr
  have "calls w1 = calls w @ (c # Fdwait (fd f2) FDW_IN dl rc # tr)"
    "fdwait_only_below lo received (c # Fdwait (fd f2) FDW_IN dl rc # tr)"
    by simp_all
  then show ?case by blast
qed

lemma fileread_below:
  assumes "fileread B f len dl w = Some (Inr (n, data, f1, w1))"
  shows "\<exists>tr. calls w1 = calls w @ tr \<and> fdwait_only_below len (ilen f) tr"
proof (cases "len \<le> ilen f")
  case True
  with assms show ?thesis by (auto simp: fileread_def)
next
  case False
  with assms have
    run: "fileread_loop B (f\<lparr>ifirst := 0, ilen := 0\<rparr>) len dl
            (take (ilen f) (drop (ifirst f) (ibuf f))) (len - ilen f) w
          = Some (Inr (n, data, f1, w1))"
    by (auto simp: fileread_def Let_def split: if_splits)
  have "ilen f + (len - ilen f) = len" using False by simp
  with fileread_loop_below[OF run] show ?thesis by blast
qed

lemma filereadlh_below:
  assumes "filereadlh B f lo hi dl w = Some (Inr (n, data, f1, w1))"
  shows "\<exists>tr. calls w1 = calls w @ tr \<and> fdwait_only_below lo (ilen f) tr"
proof (cases "ilen f \<ge> hi \<or> ilen f \<ge> lo")
  case True
  with assms show ?thesis
    by (auto simp: filereadlh_def split: if_splits)
next
  case False
  with assms have
    run: "filereadlh_loop B (f\<lparr>ifirst := 0, ilen := 0\<rparr>) lo hi dl
            (take (ilen f) (drop (ifirst f) (ibuf f))) (hi - ilen f) (ilen f) w
          = Some (Inr (n, data, f1, w1))"
    by (auto simp: filereadlh_def Let_def split: if_splits)
  from filereadlh_loop_below[OF run] show ?thesis .
qed

lemma calls_since_below:
  "\<exists>tr. calls w1 = calls w @ tr \<and> fdwait_only_below need got tr
     \<Longrightarrow> fdwait_only_below need got (calls_since w w1)"
  by (auto simp: calls_since_def)

text \<open>
  Claim C5, as the code has it. In \<open>fileflush\<close> and \<open>filewrite\<close>, \<open>fdwait\<close> is called only
  directly after a \<open>write\<close> that reported would-block, on a descriptor that is neither a
  regular file nor a directory; a \<open>write\<close> that transfers bytes is never followed by a
  wait. In \<open>fileread\<close> and \<open>filereadlh\<close>, \<open>fdwait\<close> is called only directly after a \<open>read\<close>
  that left the request unfinished, on such a descriptor: the \<open>read\<close> reported
  would-block or delivered at least one byte, and the bytes obtained up to the wait
  (those taken from the input buffer and those delivered by the \<open>read\<close> calls of this
  call) are fewer than \<open>len\<close> in \<open>fileread\<close> and fewer than \<open>lowwater\<close> in \<open>filereadlh\<close>.
  The loop body ends in the wait ("Wait till there's more data to read"), so a \<open>read\<close>
  that delivers some bytes but not enough is followed by a wait as well.
\<close>

theorem fdwait_requests:
  "(fileflush f deadline w = Some (Inr (f1, w1))
      \<longrightarrow> fdwait_only_after (would_block_on (mode f)) (calls_since w w1))
   \<and> (filewrite B f buf deadline w = Some (Inr (k, f2, w2))
      \<longrightarrow> fdwait_only_after (would_block_on (mode f)) (calls_since w w2))
   \<and> (fileread B f len deadline w = Some (Inr (n, data, f3, w3))
      \<longrightarrow> fdwait_only_after (unfinished_read_on (mode f)) (calls_since w w3)
          \<and> fdwait_only_below len (ilen f) (calls_since w w3))
   \<and> (filereadlh B f lowwater highwater deadline w = Some (Inr (n', data', f4, w4))
      \<longrightarrow> fdwait_only_after (unfinished_read_on (mode f)) (calls_since w w4)
          \<and> fdwait_only_below lowwater (ilen f) (calls_since w w4))"
proof (intro conjI impI)
  assume "fileflush f deadline w = Some (Inr (f1, w1))"
  then show "fdwait_only_after (would_block_on (mode f)) (calls_since w w1)"
    by (intro calls_since_trace fileflush_trace)
next
  assume "filewrite B f buf deadline w = Some (Inr (k, f2, w2))"
  then show "fdwait_only_after (would_block_on (mode f)) (calls_since w w2)"
    by (intro calls_since_trace filewrite_trace)
next
  assume run: "fileread B f len deadline w = Some (Inr (n, data, f3, w3))"
  show "fdwait_only_after (unfinished_read_on (mode f)) (calls_since w w3)"
    by (rule calls_since_trace [OF fileread_trace [OF run]])
  show "fdwait_only_below len (ilen f) (calls_since w w3)"
    by (rule calls_since_below [OF fileread_below [OF run]])
next
  assume run: "filereadlh B f lowwater highwater deadline w = Some (Inr (n', data', f4, w4))"
  show "fdwait_only_after (unfinished_read_on (mode f)) (calls_since w w4)"
    by (rule calls_since_trace [OF filereadlh_trace [OF run]])
  show "fdwait_only_below lowwater (ilen f) (calls_since w w4)"
    by (rule calls_since_below [OF filereadlh_below [OF run]])
qed

theorem fdwait_requests_witness:
  "fileflush (pipe_file\<lparr>obuf := [1, 2, 3, 4] @ replicate 4092 0, olen := 4\<rparr>) 0
      (world0\<lparr>writes := [WFails EAGAIN, Accepts 4], waits := [FDW_OUT]\<rparr>)
     = Some (Inr (pipe_file\<lparr>obuf := [1, 2, 3, 4] @ replicate 4092 0\<rparr>,
          world0\<lparr>calls := [SysWrite 3 [1, 2, 3, 4] (Failed EAGAIN),
                            Fdwait 3 FDW_OUT 0 FDW_OUT,
                            SysWrite 3 [1, 2, 3, 4] (Transferred [1, 2, 3, 4])]\<rparr>))
   \<and> fdwait_only_after (would_block_on 0x1180)
        [SysWrite 3 [1, 2, 3, 4] (Failed EAGAIN), Fdwait 3 FDW_OUT 0 FDW_OUT,
         SysWrite 3 [1, 2, 3, 4] (Transferred [1, 2, 3, 4])]
   \<and> fileread 4096 pipe_file 2 0
        (world0\<lparr>reads := [RFails EAGAIN, Delivers [7], Delivers [8]],
                waits := [FDW_IN, FDW_IN]\<rparr>)
     = Some (Inr (2, [7, 8], pipe_file\<lparr>ibuf := 8 # replicate 4095 0, ifirst := 1\<rparr>,
          world0\<lparr>calls := [SysRead 3 4096 (Failed EAGAIN), Fdwait 3 FDW_IN 0 FDW_IN,
                            SysRead 3 4096 (Transferred [7]), Fdwait 3 FDW_IN 0 FDW_IN,
                            SysRead 3 4096 (Transferred [8])]\<rparr>))
   \<and> fdwait_only_after (unfinished_read_on 0x1180)
        [SysRead 3 4096 (Failed EAGAIN), Fdwait 3 FDW_IN 0 FDW_IN,
         SysRead 3 4096 (Transferred [7]), Fdwait 3 FDW_IN 0 FDW_IN,
         SysRead 3 4096 (Transferred [8])]
   \<and> fdwait_only_below 2 0
        [SysRead 3 4096 (Failed EAGAIN), Fdwait 3 FDW_IN 0 FDW_IN,
         SysRead 3 4096 (Transferred [7]), Fdwait 3 FDW_IN 0 FDW_IN,
         SysRead 3 4096 (Transferred [8])]"
proof -
  have fl: "fileflush (pipe_file\<lparr>obuf := [1, 2, 3, 4] @ replicate 4092 0, olen := 4\<rparr>) 0
      (world0\<lparr>writes := [WFails EAGAIN, Accepts 4], waits := [FDW_OUT]\<rparr>)
     = Some (Inr (pipe_file\<lparr>obuf := [1, 2, 3, 4] @ replicate 4092 0\<rparr>,
          world0\<lparr>calls := [SysWrite 3 [1, 2, 3, 4] (Failed EAGAIN),
                            Fdwait 3 FDW_OUT 0 FDW_OUT,
                            SysWrite 3 [1, 2, 3, 4] (Transferred [1, 2, 3, 4])]\<rparr>))"
    by (simp add: fileflush_def fileflush_loop.simps pipe_file_def world0_def sys_write_def
          fdwait_def S_ISREG_def S_ISDIR_def)
  have rd: "fileread 4096 pipe_file 2 0
        (world0\<lparr>reads := [RFails EAGAIN, Delivers [7], Delivers [8]],
                waits := [FDW_IN, FDW_IN]\<rparr>)
     = Some (Inr (2, [7, 8], pipe_file\<lparr>ibuf := 8 # replicate 4095 0, ifirst := 1\<rparr>,
          world0\<lparr>calls := [SysRead 3 4096 (Failed EAGAIN), Fdwait 3 FDW_IN 0 FDW_IN,
                            SysRead 3 4096 (Transferred [7]), Fdwait 3 FDW_IN 0 FDW_IN,
                            SysRead 3 4096 (Transferred [8])]\<rparr>))"
    by (simp add: fileread_def fileread_loop.simps fileread_step_def pipe_file_def world0_def
          sys_read_def memcpy_at_def fdwait_def S_ISREG_def S_ISDIR_def)
  from fdwait_requests [THEN conjunct1, rule_format, OF fl]
  have a: "fdwait_only_after (would_block_on 0x1180)
        [SysWrite 3 [1, 2, 3, 4] (Failed EAGAIN), Fdwait 3 FDW_OUT 0 FDW_OUT,
         SysWrite 3 [1, 2, 3, 4] (Transferred [1, 2, 3, 4])]"
    by (simp add: calls_since_def pipe_file_def world0_def)
  note r = fdwait_requests [THEN conjunct2, THEN conjunct2, THEN conjunct1, rule_format, OF rd]
  from r [THEN conjunct1]
  have b: "fdwait_only_after (unfinished_read_on 0x1180)
        [SysRead 3 4096 (Failed EAGAIN), Fdwait 3 FDW_IN 0 FDW_IN,
         SysRead 3 4096 (Transferred [7]), Fdwait 3 FDW_IN 0 FDW_IN,
         SysRead 3 4096 (Transferred [8])]"
    by (simp add: calls_since_def pipe_file_def world0_def)
  from r [THEN conjunct2]
  have c: "fdwait_only_below 2 0
        [SysRead 3 4096 (Failed EAGAIN), Fdwait 3 FDW_IN 0 FDW_IN,
         SysRead 3 4096 (Transferred [7]), Fdwait 3 FDW_IN 0 FDW_IN,
         SysRead 3 4096 (Transferred [8])]"
    by (simp add: calls_since_def pipe_file_def world0_def)
  from fl a rd b c show ?thesis by blast
qed

text \<open>Claim C5 as stated fails for the read loops: on a pipe, a \<open>fileread\<close> of two bytes
  whose first \<open>read\<close> delivers one byte calls \<open>fdwait\<close> before the second \<open>read\<close>.\<close>

theorem fdwait_after_partial_read:
  "fileread 4096 pipe_file 2 0
      (world0\<lparr>reads := [Delivers [7], Delivers [8]], waits := [FDW_IN]\<rparr>)
     = Some (Inr (2, [7, 8], pipe_file\<lparr>ibuf := 8 # replicate 4095 0, ifirst := 1\<rparr>,
          world0\<lparr>calls := [SysRead 3 4096 (Transferred [7]), Fdwait 3 FDW_IN 0 FDW_IN,
                            SysRead 3 4096 (Transferred [8])]\<rparr>))
   \<and> calls_since (world0\<lparr>reads := [Delivers [7], Delivers [8]], waits := [FDW_IN]\<rparr>)
        (world0\<lparr>calls := [SysRead 3 4096 (Transferred [7]), Fdwait 3 FDW_IN 0 FDW_IN,
                          SysRead 3 4096 (Transferred [8])]\<rparr>)
     = [SysRead 3 4096 (Transferred [7]), Fdwait 3 FDW_IN 0 FDW_IN,
        SysRead 3 4096 (Transferred [8])]
   \<and> \<not> skips_fdwait (mode pipe_file)
   \<and> \<not> fdwait_only_after (would_block_on (mode pipe_file))
          [SysRead 3 4096 (Transferred [7]), Fdwait 3 FDW_IN 0 FDW_IN,
           SysRead 3 4096 (Transferred [8])]"
  by (simp add: fileread_def fileread_loop.simps fileread_step_def pipe_file_def world0_def
        sys_read_def memcpy_at_def fdwait_def S_ISREG_def S_ISDIR_def calls_since_def
        would_block_on_def skips_fdwait_def)

section \<open>Buffered writes and flushing\<close>

text \<open>
  Claim C7. A \<open>filewrite\<close> whose payload fits behind the pending output
  (\<open>olen + len \<le> MILL_FILE_BUFLEN\<close>) copies the whole payload into the output buffer
  behind the pending bytes, adds \<open>len\<close> to \<open>olen\<close>, returns \<open>len\<close> with \<open>errno = 0\<close>, and
  makes no call on the descriptor: the world is the one before but for \<open>errno\<close>, so its
  call log and its scripted results are untouched, and no other field of the object
  changes. With \<open>olen = 0\<close> and a payload of exactly \<open>MILL_FILE_BUFLEN\<close> bytes this is the
  case of a full-capacity write: it returns the capacity and never enters the direct
  write loop.
\<close>

theorem filewrite_fits_buffer:
  assumes "olen f + length buf \<le> B" and "length (obuf f) = B"
  shows "\<exists>f'. filewrite B f buf deadline w = Some (Inr (length buf, f', w\<lparr>errno := None\<rparr>))
           \<and> olen f' = olen f + length buf
           \<and> take (olen f') (obuf f') = take (olen f) (obuf f) @ buf
           \<and> length (obuf f') = B
           \<and> f'\<lparr>obuf := obuf f, olen := olen f\<rparr> = f"
  using assms by (simp add: filewrite_def Let_def memcpy_at_def)

theorem filewrite_fits_buffer_witness:
  "olen pipe_file + length (replicate 4096 (7 :: byte)) \<le> 4096
   \<and> length (obuf pipe_file) = 4096
   \<and> (\<exists>f'. filewrite 4096 pipe_file (replicate 4096 7) 0 world0 = Some (Inr (4096, f', world0))
          \<and> olen f' = 4096
          \<and> take 4096 (obuf f') = replicate 4096 7)"
proof -
  have h1: "olen pipe_file + length (replicate 4096 (7 :: byte)) \<le> 4096"
    by (simp add: pipe_file_def)
  have h2: "length (obuf pipe_file) = 4096"
    by (simp add: pipe_file_def)
  have h3: "world0\<lparr>errno := None\<rparr> = world0"
    by (simp add: world0_def)
  from filewrite_fits_buffer [OF h1 h2, of 0 world0] obtain f' where
    "filewrite 4096 pipe_file (replicate 4096 7) 0 world0
       = Some (Inr (length (replicate 4096 (7 :: byte)), f', world0\<lparr>errno := None\<rparr>))"
    "olen f' = olen pipe_file + length (replicate 4096 (7 :: byte))"
    "take (olen f') (obuf f') = take (olen pipe_file) (obuf pipe_file) @ replicate 4096 7"
    by blast
  then have "filewrite 4096 pipe_file (replicate 4096 7) 0 world0 = Some (Inr (4096, f', world0))
      \<and> olen f' = 4096 \<and> take 4096 (obuf f') = replicate 4096 7"
    by (simp add: h3 pipe_file_def)
  with h1 h2 show ?thesis by blast
qed

text \<open>
  Claim C8. \<open>fileflush\<close> with nothing pending (\<open>olen = 0\<close>) returns with \<open>errno = 0\<close> and
  makes no call on the descriptor: the object is unchanged and the world is the one
  before but for \<open>errno\<close>. After a \<open>fileflush\<close> that returned with \<open>errno = 0\<close>, a second
  \<open>fileflush\<close> (with any deadline) returns the same object and the same world: it writes
  nothing, changes nothing and reports success again.
\<close>

theorem fileflush_idempotent:
  "(olen f = 0 \<longrightarrow> fileflush f deadline w = Some (Inr (f, w\<lparr>errno := None\<rparr>))) \<and>
   (fileflush f deadline w = Some (Inr (f1, w1)) \<and> errno w1 = None
      \<longrightarrow> olen f1 = 0 \<and> fileflush f1 deadline' w1 = Some (Inr (f1, w1)))"
proof (intro conjI impI)
  assume "olen f = 0"
  then show "fileflush f deadline w = Some (Inr (f, w\<lparr>errno := None\<rparr>))"
    by (simp add: fileflush_def)
next
  assume a: "fileflush f deadline w = Some (Inr (f1, w1)) \<and> errno w1 = None"
  then have "f1 = f\<lparr>olen := 0\<rparr>"
    using fileflush_result by blast
  then show z: "olen f1 = 0" by simp
  have "w1\<lparr>errno := None\<rparr> = w1" using a by simp
  with z show "fileflush f1 deadline' w1 = Some (Inr (f1, w1))"
    by (simp add: fileflush_def)
qed

theorem fileflush_idempotent_witness:
  "fileflush (pipe_file\<lparr>obuf := [1, 2, 3, 4] @ replicate 4092 0, olen := 4\<rparr>) 0
      (world0\<lparr>writes := [Accepts 4]\<rparr>)
     = Some (Inr (pipe_file\<lparr>obuf := [1, 2, 3, 4] @ replicate 4092 0\<rparr>,
                  world0\<lparr>calls := [SysWrite 3 [1, 2, 3, 4] (Transferred [1, 2, 3, 4])]\<rparr>))
   \<and> errno (world0\<lparr>calls := [SysWrite 3 [1, 2, 3, 4] (Transferred [1, 2, 3, 4])]\<rparr>) = None
   \<and> fileflush (pipe_file\<lparr>obuf := [1, 2, 3, 4] @ replicate 4092 0\<rparr>) 1
        (world0\<lparr>calls := [SysWrite 3 [1, 2, 3, 4] (Transferred [1, 2, 3, 4])]\<rparr>)
     = Some (Inr (pipe_file\<lparr>obuf := [1, 2, 3, 4] @ replicate 4092 0\<rparr>,
                  world0\<lparr>calls := [SysWrite 3 [1, 2, 3, 4] (Transferred [1, 2, 3, 4])]\<rparr>))"
proof -
  have first: "fileflush (pipe_file\<lparr>obuf := [1, 2, 3, 4] @ replicate 4092 0, olen := 4\<rparr>) 0
      (world0\<lparr>writes := [Accepts 4]\<rparr>)
     = Some (Inr (pipe_file\<lparr>obuf := [1, 2, 3, 4] @ replicate 4092 0\<rparr>,
                  world0\<lparr>calls := [SysWrite 3 [1, 2, 3, 4] (Transferred [1, 2, 3, 4])]\<rparr>))"
    by (simp add: fileflush_def pipe_file_def world0_def sys_write_def fileflush_loop.simps)
  have ok: "errno (world0\<lparr>calls := [SysWrite 3 [1, 2, 3, 4] (Transferred [1, 2, 3, 4])]\<rparr>) = None"
    by (simp add: world0_def)
  from fileflush_idempotent [THEN conjunct2, rule_format, OF conjI, OF first ok, of 1]
  show ?thesis using first ok by blast
qed

section \<open>The buffer invariants\<close>

lemma fileread_step_inv:
  "fileread_step B f len buf remaining w = Some (Return (n, data, f1, w1))
     \<Longrightarrow> buffer_inv B f \<Longrightarrow> buffer_inv B f1"
  "fileread_step B f len buf remaining w = Some (Continue (buf1, remaining1, f2, w2))
     \<Longrightarrow> buffer_inv B f \<Longrightarrow> buffer_inv B f2"
  by (cases rule: sys_read_cases[of w "fd f"];
      auto simp: fileread_step_def buffer_inv_def Let_def split: if_splits)+

lemma fileread_loop_inv:
  assumes "fileread_loop B f len dl buf remaining w = Some (Inr (n, data, f1, w1))"
  shows "buffer_inv B f \<longrightarrow> buffer_inv B f1"
  using assms
proof (induct rule: fileread_loop_induct)
  case (Return f buf remaining w)
  then show ?case using fileread_step_inv(1) by blast
next
  case (Timeout f buf remaining w buf1 remaining1 f2 w2 w3)
  then show ?case using fileread_step_inv(2) by (metis prod.inject)
next
  case (Retry f buf remaining w buf1 remaining1 f1 w1)
  then show ?case using fileread_step_inv(2) by blast
next
  case (Wake f buf remaining w buf1 remaining1 f1 w1 rc w2)
  then show ?case using fileread_step_inv(2) by blast
qed

lemma fileread_inv:
  "fileread B f len dl w = Some (Inr (n, data, f1, w1)) \<Longrightarrow> buffer_inv B f \<Longrightarrow> buffer_inv B f1"
  by (auto simp: fileread_def Let_def split: if_splits dest!: fileread_loop_inv)
     (auto simp: buffer_inv_def)

text \<open>In the loop of \<open>filereadlh\<close>, \<open>received + remaining\<close> is \<open>highwater\<close>, until
  \<open>remaining -= sz\<close> wraps around, which it can only with \<open>highwater < lowwater\<close>; from
  then on \<open>remaining\<close> is \<open>highwater + 2 ^ 64 - received\<close>, more than a buffer, and every
  \<open>read\<close> goes directly to the destination.\<close>

lemma filereadlh_step_inv:
  assumes size: "lo + B \<le> 2 ^ 64"
    and inv: "received + remaining = hi
        \<or> (hi < received \<and> received < lo \<and> remaining + received = hi + 2 ^ 64)"
    and buf: "buffer_inv B f"
    and step: "filereadlh_step B f lo hi buf remaining received w = Some s"
  shows "case s of
      Return (n, data, f1, w1) \<Rightarrow> buffer_inv B f1
    | Continue (buf1, remaining1, received1, f2, w2) \<Rightarrow>
        buffer_inv B f2
        \<and> (received1 + remaining1 = hi
           \<or> (hi < received1 \<and> received1 < lo \<and> remaining1 + received1 = hi + 2 ^ 64))"
proof (cases "B < remaining")
  case True
  show ?thesis
  proof (cases rule: sys_read_count_cases[of "fd f" remaining w])
    case Nil
    with step True show ?thesis by (simp add: filereadlh_step_def)
  next
    case (Delivers got rs)
    with step True inv buf show ?thesis
      by (auto simp: filereadlh_step_def buffer_inv_def Let_def split: if_splits)
  next
    case (Fails e rs)
    with step True inv buf show ?thesis
      by (auto simp: filereadlh_step_def buffer_inv_def Let_def split: if_splits)
  qed
next
  case False
  with inv size have plain: "received + remaining = hi" by auto
  show ?thesis
  proof (cases rule: sys_read_count_cases[of "fd f" B w])
    case Nil
    with step False show ?thesis by (simp add: filereadlh_step_def)
  next
    case (Delivers got rs)
    with step False plain buf size show ?thesis
      by (auto simp: filereadlh_step_def buffer_inv_def size_sub_def Let_def
               split: if_splits)
  next
    case (Fails e rs)
    with step False plain buf size show ?thesis
      by (auto simp: filereadlh_step_def buffer_inv_def size_sub_def Let_def
               split: if_splits)
  qed
qed

lemma filereadlh_loop_inv:
  assumes "filereadlh_loop B f lo hi dl buf remaining received w = Some (Inr (n, data, f1, w1))"
    and size: "lo + B \<le> 2 ^ 64"
  shows "(received + remaining = hi
          \<or> (hi < received \<and> received < lo \<and> remaining + received = hi + 2 ^ 64))
         \<and> buffer_inv B f \<longrightarrow> buffer_inv B f1"
  using assms(1)
proof (induct rule: filereadlh_loop_induct)
  case (Return f buf remaining received w)
  show ?case
  proof
    assume a: "(received + remaining = hi
          \<or> (hi < received \<and> received < lo \<and> remaining + received = hi + 2 ^ 64))
         \<and> buffer_inv B f"
    from filereadlh_step_inv[OF size conjunct1[OF a] conjunct2[OF a] Return]
    show "buffer_inv B f1" by simp
  qed
next
  case (Timeout f buf remaining received w buf1 remaining1 received1 f2 w2 w3)
  show ?case
  proof
    assume a: "(received + remaining = hi
          \<or> (hi < received \<and> received < lo \<and> remaining + received = hi + 2 ^ 64))
         \<and> buffer_inv B f"
    from filereadlh_step_inv[OF size conjunct1[OF a] conjunct2[OF a] Timeout(1)]
    have "buffer_inv B f2" by simp
    with Timeout(4) show "buffer_inv B f1" by simp
  qed
next
  case (Retry f buf remaining received w buf1 remaining1 received1 f2 w2)
  show ?case
  proof
    assume a: "(received + remaining = hi
          \<or> (hi < received \<and> received < lo \<and> remaining + received = hi + 2 ^ 64))
         \<and> buffer_inv B f"
    from filereadlh_step_inv[OF size conjunct1[OF a] conjunct2[OF a] Retry(1)]
    have "(received1 + remaining1 = hi
          \<or> (hi < received1 \<and> received1 < lo \<and> remaining1 + received1 = hi + 2 ^ 64))
         \<and> buffer_inv B f2" by simp
    with Retry(3) show "buffer_inv B f1" by blast
  qed
next
  case (Wake f buf remaining received w buf1 remaining1 received1 f2 w2 rc w3)
  show ?case
  proof
    assume a: "(received + remaining = hi
          \<or> (hi < received \<and> received < lo \<and> remaining + received = hi + 2 ^ 64))
         \<and> buffer_inv B f"
    from filereadlh_step_inv[OF size conjunct1[OF a] conjunct2[OF a] Wake(1)]
    have "(received1 + remaining1 = hi
          \<or> (hi < received1 \<and> received1 < lo \<and> remaining1 + received1 = hi + 2 ^ 64))
         \<and> buffer_inv B f2" by simp
    with Wake(5) show "buffer_inv B f1" by blast
  qed
qed

lemma filereadlh_inv:
  assumes "filereadlh B f lo hi dl w = Some (Inr (n, data, f1, w1))"
    and "lo + B \<le> 2 ^ 64" and "buffer_inv B f"
  shows "buffer_inv B f1"
proof (cases "ilen f \<ge> hi \<or> ilen f \<ge> lo")
  case True
  with assms show ?thesis
    by (auto simp: filereadlh_def buffer_inv_def split: if_splits)
next
  case False
  with assms(1) have
    run: "filereadlh_loop B (f\<lparr>ifirst := 0, ilen := 0\<rparr>) lo hi dl
            (take (ilen f) (drop (ifirst f) (ibuf f))) (hi - ilen f) (ilen f) w
          = Some (Inr (n, data, f1, w1))"
    by (auto simp: filereadlh_def Let_def split: if_splits)
  have "ilen f + (hi - ilen f) = hi" using False by simp
  moreover have "buffer_inv B (f\<lparr>ifirst := 0, ilen := 0\<rparr>)"
    using assms(3) by (simp add: buffer_inv_def)
  ultimately show ?thesis
    using filereadlh_loop_inv[OF run assms(2)] by blast
qed

lemma fileflush_inv:
  "fileflush f dl w = Some (Inr (f1, w1)) \<Longrightarrow> buffer_inv B f \<Longrightarrow> buffer_inv B f1"
  by (auto dest!: fileflush_result simp: buffer_inv_def)

lemma filewrite_inv:
  assumes "filewrite B f buf dl w = Some (Inr (n, f1, w1))" and "buffer_inv B f"
  shows "buffer_inv B f1"
proof (cases "olen f + length buf \<le> B")
  case True
  with assms show ?thesis by (auto simp: filewrite_def Let_def buffer_inv_def)
next
  case False
  with assms obtain f2 w2 where
    fl: "fileflush f dl w = Some (Inr (f2, w2))" and
    rest: "(if errno w2 \<noteq> None then Some (Inr (0, f2, w2))
            else if olen f2 + length buf \<le> B then
              Some (Inr (length buf,
                         f2\<lparr>obuf := memcpy_at (obuf f2) (olen f2) buf,
                            olen := olen f2 + length buf\<rparr>,
                         w2\<lparr>errno := None\<rparr>))
            else filewrite_loop f2 buf (length buf) dl 0 (length buf) w2)
           = Some (Inr (n, f1, w1))"
    by (auto simp: filewrite_def Let_def split: bind_splits sum.splits)
  from fl assms(2) have "buffer_inv B f2" by (rule fileflush_inv)
  with rest show ?thesis
    by (auto split: if_splits dest: filewrite_loop_file simp: buffer_inv_def)
qed

text \<open>
  Claim C9. A channel returned by \<open>fileopen\<close> or \<open>fileattach\<close> satisfies the buffer
  invariants (\<open>0 \<le> ifirst\<close>, \<open>ifirst + ilen \<le> MILL_FILE_BUFLEN\<close>,
  \<open>0 \<le> olen \<le> MILL_FILE_BUFLEN\<close>), and \<open>filewrite\<close>, \<open>fileflush\<close>, \<open>fileread\<close>,
  \<open>filereadlh\<close> and \<open>fileseek\<close> return a channel that satisfies them whenever they are
  called on one that does; so does every state reached from a fresh channel. The other
  operations (\<open>filetell\<close>, \<open>filesize\<close>, \<open>fileeof\<close>) do not assign to the object.
  \<open>filereadlh\<close> preserves the invariants whatever the order of its two watermarks.
  \<open>lowwater\<close> and \<open>MILL_FILE_BUFLEN\<close> are byte counts of one address space:
  \<open>lowwater + MILL_FILE_BUFLEN \<le> 2 ^ 64\<close>.
\<close>

theorem buffer_invariants:
  "(fileopen open_ret malloc_ret fstat_ret w = (Some f0, w0) \<longrightarrow> buffer_inv B f0)
   \<and> (fileattach d malloc_ret rc w = Inr (Some f0', w0') \<longrightarrow> buffer_inv B f0')
   \<and> (buffer_inv B f \<longrightarrow>
        (filewrite B f buf deadline w = Some (Inr (k, f1, w1)) \<longrightarrow> buffer_inv B f1)
      \<and> (fileflush f deadline w = Some (Inr (f2, w2)) \<longrightarrow> buffer_inv B f2)
      \<and> (fileread B f len deadline w = Some (Inr (n, data, f3, w3)) \<longrightarrow> buffer_inv B f3)
      \<and> (lowwater + B \<le> 2 ^ 64
           \<and> filereadlh B f lowwater highwater deadline w = Some (Inr (n', data', f4, w4))
         \<longrightarrow> buffer_inv B f4)
      \<and> buffer_inv B (fst (snd (fileseek f offset lseek_ret w))))"
proof (intro conjI impI)
  assume "fileopen open_ret malloc_ret fstat_ret w = (Some f0, w0)"
  then show "buffer_inv B f0"
    by (auto simp: fileopen_def buffer_inv_def Let_def split: sum.splits option.splits)
next
  assume "fileattach d malloc_ret rc w = Inr (Some f0', w0')"
  then show "buffer_inv B f0'"
    by (auto simp: fileattach_def buffer_inv_def split: sum.splits option.splits)
next
  assume "buffer_inv B f" "filewrite B f buf deadline w = Some (Inr (k, f1, w1))"
  then show "buffer_inv B f1" using filewrite_inv by blast
next
  assume "buffer_inv B f" "fileflush f deadline w = Some (Inr (f2, w2))"
  then show "buffer_inv B f2" using fileflush_inv by blast
next
  assume "buffer_inv B f" "fileread B f len deadline w = Some (Inr (n, data, f3, w3))"
  then show "buffer_inv B f3" using fileread_inv by blast
next
  assume "buffer_inv B f"
    "lowwater + B \<le> 2 ^ 64
      \<and> filereadlh B f lowwater highwater deadline w = Some (Inr (n', data', f4, w4))"
  then show "buffer_inv B f4" using filereadlh_inv by blast
next
  show "buffer_inv B (fst (snd (fileseek f offset lseek_ret w)))"
    by (simp add: fileseek_def buffer_inv_def Let_def split: sum.splits)
qed

theorem buffer_invariants_witness:
  "buffer_inv 4096 pipe_file
   \<and> (2 :: nat) + 4096 \<le> 2 ^ 64
   \<and> filereadlh 4096 pipe_file 2 3 0 (world0\<lparr>reads := [Delivers [1, 2, 3, 4]]\<rparr>)
     = Some (Inr (3, [1, 2, 3],
          pipe_file\<lparr>ibuf := [1, 2, 3, 4] @ replicate 4092 0, ifirst := 3, ilen := 1\<rparr>,
          world0\<lparr>calls := [SysRead 3 4096 (Transferred [1, 2, 3, 4])]\<rparr>))
   \<and> buffer_inv 4096
        (pipe_file\<lparr>ibuf := [1, 2, 3, 4] @ replicate 4092 0, ifirst := 3, ilen := 1\<rparr>)
   \<and> (5 :: nat) + 4096 \<le> 2 ^ 64
   \<and> filereadlh 4096 pipe_file 5 3 0
        (world0\<lparr>reads := [Delivers [1, 2, 3, 4], Delivers [5]], waits := [FDW_IN]\<rparr>)
     = Some (Inr (5, [1, 2, 3, 4, 5], pipe_file\<lparr>ibuf := [1, 2, 3, 4] @ replicate 4092 0\<rparr>,
          world0\<lparr>calls := [SysRead 3 4096 (Transferred [1, 2, 3, 4]),
                            Fdwait 3 FDW_IN 0 FDW_IN,
                            SysRead 3 18446744073709551615 (Transferred [5])]\<rparr>))
   \<and> buffer_inv 4096 (pipe_file\<lparr>ibuf := [1, 2, 3, 4] @ replicate 4092 0\<rparr>)"
proof -
  have inv: "buffer_inv 4096 pipe_file"
    by (simp add: buffer_inv_def pipe_file_def)
  have s2: "(2 :: nat) + 4096 \<le> 2 ^ 64" by simp
  have s5: "(5 :: nat) + 4096 \<le> 2 ^ 64" by simp
  have run: "filereadlh 4096 pipe_file 2 3 0 (world0\<lparr>reads := [Delivers [1, 2, 3, 4]]\<rparr>)
     = Some (Inr (3, [1, 2, 3],
          pipe_file\<lparr>ibuf := [1, 2, 3, 4] @ replicate 4092 0, ifirst := 3, ilen := 1\<rparr>,
          world0\<lparr>calls := [SysRead 3 4096 (Transferred [1, 2, 3, 4])]\<rparr>))"
    by (simp add: filereadlh_def filereadlh_loop.simps filereadlh_step_def pipe_file_def
          world0_def sys_read_def memcpy_at_def size_sub_def)
  have swapped: "filereadlh 4096 pipe_file 5 3 0
        (world0\<lparr>reads := [Delivers [1, 2, 3, 4], Delivers [5]], waits := [FDW_IN]\<rparr>)
     = Some (Inr (5, [1, 2, 3, 4, 5], pipe_file\<lparr>ibuf := [1, 2, 3, 4] @ replicate 4092 0\<rparr>,
          world0\<lparr>calls := [SysRead 3 4096 (Transferred [1, 2, 3, 4]),
                            Fdwait 3 FDW_IN 0 FDW_IN,
                            SysRead 3 18446744073709551615 (Transferred [5])]\<rparr>))"
    by (simp add: filereadlh_def filereadlh_loop.simps filereadlh_step_def pipe_file_def
          world0_def sys_read_def memcpy_at_def size_sub_def fdwait_def S_ISREG_def
          S_ISDIR_def)
  note lh = buffer_invariants [THEN conjunct2, THEN conjunct2, rule_format, OF inv,
      THEN conjunct2, THEN conjunct2, THEN conjunct2, THEN conjunct1, rule_format,
      OF conjI]
  from lh [OF s2 run]
  have a: "buffer_inv 4096
        (pipe_file\<lparr>ibuf := [1, 2, 3, 4] @ replicate 4092 0, ifirst := 3, ilen := 1\<rparr>)" .
  from lh [OF s5 swapped]
  have b: "buffer_inv 4096 (pipe_file\<lparr>ibuf := [1, 2, 3, 4] @ replicate 4092 0\<rparr>)" .
  from inv s2 run a s5 swapped b show ?thesis by blast
qed

section \<open>Direction separation\<close>

lemma fileread_step_output:
  "fileread_step B f len buf remaining w = Some (Return (n, data, f1, w1))
     \<Longrightarrow> output_side f1 w1 = output_side f w"
  "fileread_step B f len buf remaining w = Some (Continue (buf1, remaining1, f2, w2))
     \<Longrightarrow> output_side f2 w2 = output_side f w"
  by (cases rule: sys_read_cases[of w "fd f"];
      auto simp: fileread_step_def output_side_def Let_def split: if_splits)+

lemma fileread_loop_output:
  assumes "fileread_loop B f len dl buf remaining w = Some (Inr (n, data, f1, w1))"
  shows "output_side f1 w1 = output_side f w"
  using assms
proof (induct rule: fileread_loop_induct)
  case (Return f buf remaining w)
  then show ?case by (rule fileread_step_output)
next
  case (Timeout f buf remaining w buf1 remaining1 f2 w2 w3)
  then show ?case using fileread_step_output(2) fdwait_output(1) by (metis prod.inject)
next
  case (Retry f buf remaining w buf1 remaining1 f1 w1)
  then show ?case using fileread_step_output(2) by metis
next
  case (Wake f buf remaining w buf1 remaining1 f1 w1 rc w2)
  then show ?case using fileread_step_output(2) fdwait_output(2) by metis
qed

lemma filereadlh_step_output:
  "filereadlh_step B f lo hi buf remaining received w = Some (Return (n, data, f1, w1))
     \<Longrightarrow> output_side f1 w1 = output_side f w"
  "filereadlh_step B f lo hi buf remaining received w
       = Some (Continue (buf1, remaining1, received1, f2, w2))
     \<Longrightarrow> output_side f2 w2 = output_side f w"
  by (cases rule: sys_read_cases[of w "fd f"];
      auto simp: filereadlh_step_def output_side_def Let_def split: if_splits)+

lemma filereadlh_loop_output:
  assumes "filereadlh_loop B f lo hi dl buf remaining received w = Some (Inr (n, data, f1, w1))"
  shows "output_side f1 w1 = output_side f w"
  using assms
proof (induct rule: filereadlh_loop_induct)
  case (Return f buf remaining received w)
  then show ?case by (rule filereadlh_step_output)
next
  case (Timeout f buf remaining received w buf1 remaining1 received1 f2 w2 w3)
  then show ?case using filereadlh_step_output(2) fdwait_output(1) by (metis prod.inject)
next
  case (Retry f buf remaining received w buf1 remaining1 received1 f1 w1)
  then show ?case using filereadlh_step_output(2) by metis
next
  case (Wake f buf remaining received w buf1 remaining1 received1 f1 w1 rc w2)
  then show ?case using filereadlh_step_output(2) fdwait_output(2) by metis
qed

lemma fileread_output:
  "fileread B f len dl w = Some (Inr (n, data, f1, w1)) \<Longrightarrow> output_side f1 w1 = output_side f w"
  by (auto simp: fileread_def Let_def output_side_def split: if_splits
           dest!: fileread_loop_output)

lemma filereadlh_output:
  "filereadlh B f lo hi dl w = Some (Inr (n, data, f1, w1))
     \<Longrightarrow> output_side f1 w1 = output_side f w"
  by (auto simp: filereadlh_def Let_def output_side_def split: if_splits
           dest!: filereadlh_loop_output)

lemma fileflush_loop_input:
  assumes "fileflush_loop f dl pos remaining w = Some (Inr (f1, w1))"
  shows "input_side f1 w1 = input_side f w"
  using assms
proof (induct rule: fileflush_loop_induct)
  case (Done pos w)
  then show ?case by simp
next
  case (Error pos remaining w w2)
  then show ?case using sys_write_input by (metis prod.inject)
next
  case (Timeout pos remaining w w2 w3)
  then show ?case using sys_write_input fdwait_input(1) by (metis prod.inject)
next
  case (Retry pos remaining w w2)
  then show ?case using sys_write_input by metis
next
  case (Wake pos remaining w w2 w3)
  then show ?case using sys_write_input fdwait_input(2) by metis
next
  case (Progress pos remaining w sz w2)
  then show ?case using sys_write_input by metis
qed

lemma filewrite_loop_input:
  assumes "filewrite_loop f buf len dl pos remaining w = Some (Inr (n, f1, w1))"
  shows "input_side f1 w1 = input_side f w"
  using assms
proof (induct rule: filewrite_loop_induct)
  case (Done pos w)
  then show ?case by simp
next
  case (Error pos remaining w w2)
  then show ?case using sys_write_input by (metis prod.inject)
next
  case (Timeout pos remaining w w2 w3)
  then show ?case using sys_write_input fdwait_input(1) by (metis prod.inject)
next
  case (Retry pos remaining w w2)
  then show ?case using sys_write_input by metis
next
  case (Wake pos remaining w w2 w3)
  then show ?case using sys_write_input fdwait_input(2) by metis
next
  case (Progress pos remaining w sz w2)
  then show ?case using sys_write_input by metis
qed

lemma fileflush_input:
  "fileflush f dl w = Some (Inr (f1, w1)) \<Longrightarrow> input_side f1 w1 = input_side f w"
  by (auto simp: fileflush_def split: if_splits dest: fileflush_loop_input)

lemma filewrite_input:
  assumes "filewrite B f buf dl w = Some (Inr (n, f1, w1))"
  shows "input_side f1 w1 = input_side f w"
proof (cases "olen f + length buf \<le> B")
  case True
  with assms show ?thesis by (auto simp: filewrite_def Let_def)
next
  case False
  with assms obtain f2 w2 where
    fl: "fileflush f dl w = Some (Inr (f2, w2))" and
    rest: "(if errno w2 \<noteq> None then Some (Inr (0, f2, w2))
            else if olen f2 + length buf \<le> B then
              Some (Inr (length buf,
                         f2\<lparr>obuf := memcpy_at (obuf f2) (olen f2) buf,
                            olen := olen f2 + length buf\<rparr>,
                         w2\<lparr>errno := None\<rparr>))
            else filewrite_loop f2 buf (length buf) dl 0 (length buf) w2)
           = Some (Inr (n, f1, w1))"
    by (auto simp: filewrite_def Let_def split: bind_splits sum.splits)
  from fl have "input_side f2 w2 = input_side f w" by (rule fileflush_input)
  moreover from rest have "input_side f1 w1 = input_side f2 w2"
    by (auto split: if_splits dest: filewrite_loop_input)
  ultimately show ?thesis by simp
qed

text \<open>
  Claim C10. \<open>fileread\<close> and \<open>filereadlh\<close> leave the output side as it was, however they
  return (in full, short at end of stream, on an error or on a timeout): \<open>olen\<close> and \<open>obuf\<close>
  are unchanged and no \<open>write\<close> call is made, so no read flushes pending output.
  \<open>filewrite\<close> and \<open>fileflush\<close> leave the input side as it was: \<open>ifirst\<close>, \<open>ilen\<close>, \<open>ibuf\<close>
  and \<open>eof\<close> are unchanged and no \<open>read\<close> call is made.
\<close>

theorem direction_separation:
  "(fileread B f len deadline w = Some (Inr (n, data, f1, w1))
      \<longrightarrow> output_side f1 w1 = output_side f w)
   \<and> (filereadlh B f lowwater highwater deadline w = Some (Inr (n', data', f2, w2))
      \<longrightarrow> output_side f2 w2 = output_side f w)
   \<and> (filewrite B f buf deadline w = Some (Inr (k, f3, w3))
      \<longrightarrow> input_side f3 w3 = input_side f w)
   \<and> (fileflush f deadline w = Some (Inr (f4, w4))
      \<longrightarrow> input_side f4 w4 = input_side f w)"
  by (intro conjI impI;
      erule fileread_output filereadlh_output filewrite_input fileflush_input)

theorem direction_separation_witness:
  "fileread 4096 (pipe_file\<lparr>obuf := [1, 2, 3, 4] @ replicate 4092 0, olen := 4\<rparr>) 2 0
      (world0\<lparr>reads := [Delivers [7], Delivers [8]], writes := [Accepts 4], waits := [FDW_IN]\<rparr>)
     = Some (Inr (2, [7, 8],
          pipe_file\<lparr>obuf := [1, 2, 3, 4] @ replicate 4092 0, olen := 4,
                    ibuf := 8 # replicate 4095 0, ifirst := 1\<rparr>,
          world0\<lparr>writes := [Accepts 4],
                 calls := [SysRead 3 4096 (Transferred [7]), Fdwait 3 FDW_IN 0 FDW_IN,
                           SysRead 3 4096 (Transferred [8])]\<rparr>))
   \<and> output_side
        (pipe_file\<lparr>obuf := [1, 2, 3, 4] @ replicate 4092 0, olen := 4,
                   ibuf := 8 # replicate 4095 0, ifirst := 1\<rparr>)
        (world0\<lparr>writes := [Accepts 4],
                calls := [SysRead 3 4096 (Transferred [7]), Fdwait 3 FDW_IN 0 FDW_IN,
                          SysRead 3 4096 (Transferred [8])]\<rparr>)
     = (4, [1, 2, 3, 4] @ replicate 4092 0, [Accepts 4], [])
   \<and> fileflush (pipe_file\<lparr>obuf := [1, 2, 3, 4] @ replicate 4092 0, olen := 4\<rparr>) 0
        (world0\<lparr>reads := [Delivers [7], Delivers [8]], writes := [Accepts 4], waits := [FDW_IN]\<rparr>)
     = Some (Inr (pipe_file\<lparr>obuf := [1, 2, 3, 4] @ replicate 4092 0\<rparr>,
          world0\<lparr>reads := [Delivers [7], Delivers [8]], waits := [FDW_IN],
                 calls := [SysWrite 3 [1, 2, 3, 4] (Transferred [1, 2, 3, 4])]\<rparr>))
   \<and> input_side (pipe_file\<lparr>obuf := [1, 2, 3, 4] @ replicate 4092 0\<rparr>)
        (world0\<lparr>reads := [Delivers [7], Delivers [8]], waits := [FDW_IN],
                calls := [SysWrite 3 [1, 2, 3, 4] (Transferred [1, 2, 3, 4])]\<rparr>)
     = (0, 0, replicate 4096 0, 0, [Delivers [7], Delivers [8]], [])"
proof -
  have rd: "fileread 4096 (pipe_file\<lparr>obuf := [1, 2, 3, 4] @ replicate 4092 0, olen := 4\<rparr>) 2 0
      (world0\<lparr>reads := [Delivers [7], Delivers [8]], writes := [Accepts 4], waits := [FDW_IN]\<rparr>)
     = Some (Inr (2, [7, 8],
          pipe_file\<lparr>obuf := [1, 2, 3, 4] @ replicate 4092 0, olen := 4,
                    ibuf := 8 # replicate 4095 0, ifirst := 1\<rparr>,
          world0\<lparr>writes := [Accepts 4],
                 calls := [SysRead 3 4096 (Transferred [7]), Fdwait 3 FDW_IN 0 FDW_IN,
                           SysRead 3 4096 (Transferred [8])]\<rparr>))"
    by (simp add: fileread_def fileread_loop.simps fileread_step_def pipe_file_def world0_def
          sys_read_def memcpy_at_def fdwait_def S_ISREG_def S_ISDIR_def)
  have fl: "fileflush (pipe_file\<lparr>obuf := [1, 2, 3, 4] @ replicate 4092 0, olen := 4\<rparr>) 0
        (world0\<lparr>reads := [Delivers [7], Delivers [8]], writes := [Accepts 4], waits := [FDW_IN]\<rparr>)
     = Some (Inr (pipe_file\<lparr>obuf := [1, 2, 3, 4] @ replicate 4092 0\<rparr>,
          world0\<lparr>reads := [Delivers [7], Delivers [8]], waits := [FDW_IN],
                 calls := [SysWrite 3 [1, 2, 3, 4] (Transferred [1, 2, 3, 4])]\<rparr>))"
    by (simp add: fileflush_def fileflush_loop.simps pipe_file_def world0_def sys_write_def)
  note sep = direction_separation
    [where f = "pipe_file\<lparr>obuf := [1, 2, 3, 4] @ replicate 4092 0, olen := 4\<rparr>"
       and w = "world0\<lparr>reads := [Delivers [7], Delivers [8]], writes := [Accepts 4],
                       waits := [FDW_IN]\<rparr>"
       and B = 4096 and deadline = 0]
  from sep [THEN conjunct1, rule_format, OF rd]
  have o: "output_side
        (pipe_file\<lparr>obuf := [1, 2, 3, 4] @ replicate 4092 0, olen := 4,
                   ibuf := 8 # replicate 4095 0, ifirst := 1\<rparr>)
        (world0\<lparr>writes := [Accepts 4],
                calls := [SysRead 3 4096 (Transferred [7]), Fdwait 3 FDW_IN 0 FDW_IN,
                          SysRead 3 4096 (Transferred [8])]\<rparr>)
     = (4, [1, 2, 3, 4] @ replicate 4092 0, [Accepts 4], [])"
    by (simp add: output_side_def pipe_file_def world0_def)
  from sep [THEN conjunct2, THEN conjunct2, THEN conjunct2, rule_format, OF fl]
  have i: "input_side (pipe_file\<lparr>obuf := [1, 2, 3, 4] @ replicate 4092 0\<rparr>)
        (world0\<lparr>reads := [Delivers [7], Delivers [8]], waits := [FDW_IN],
                calls := [SysWrite 3 [1, 2, 3, 4] (Transferred [1, 2, 3, 4])]\<rparr>)
     = (0, 0, replicate 4096 0, 0, [Delivers [7], Delivers [8]], [])"
    by (simp add: input_side_def pipe_file_def world0_def)
  from rd o fl i show ?thesis by blast
qed

section \<open>The end-of-stream flag\<close>

text \<open>What the code keeps of the end-of-stream flag: \<open>fileopen\<close> clears it and so does
  \<open>fileseek\<close>; \<open>filewrite\<close> and \<open>fileflush\<close> leave it alone; \<open>fileread\<close> and \<open>filereadlh\<close>
  leave it alone or return with it set directly after a \<open>read\<close> of zero bytes; and
  \<open>fileeof\<close> returns the field. \<open>fileattach\<close> hands on what the heap block held.\<close>

lemma fileread_step_eof:
  assumes "fileread_step B f len buf remaining w = Some s"
  shows "case s of
      Return (n, data, f1, w1) \<Rightarrow> eof f1 = eof f \<or> end_of_stream f1 w1
    | Continue (buf1, remaining1, f2, w2) \<Rightarrow> eof f2 = eof f"
  using assms
  by (cases rule: sys_read_cases[of w "fd f"];
      auto simp: fileread_step_def end_of_stream_def Let_def min_def split: if_splits)

lemma filereadlh_step_eof:
  assumes "filereadlh_step B f lo hi buf remaining received w = Some s"
  shows "case s of
      Return (n, data, f1, w1) \<Rightarrow> eof f1 = eof f \<or> end_of_stream f1 w1
    | Continue (buf1, remaining1, received1, f2, w2) \<Rightarrow> eof f2 = eof f"
  using assms
  by (cases rule: sys_read_cases[of w "fd f"];
      auto simp: filereadlh_step_def end_of_stream_def Let_def min_def split: if_splits)

lemma fileread_loop_eof:
  assumes "fileread_loop B f len dl buf remaining w = Some (Inr (n, data, f1, w1))"
  shows "eof f1 = eof f \<or> end_of_stream f1 w1"
  using assms
proof (induct rule: fileread_loop_induct)
  case (Return f buf remaining w)
  then show ?case using fileread_step_eof by fastforce
next
  case (Timeout f buf remaining w buf1 remaining1 f2 w2 w3)
  then show ?case using fileread_step_eof by fastforce
next
  case (Retry f buf remaining w buf1 remaining1 f2 w2)
  then show ?case using fileread_step_eof by fastforce
next
  case (Wake f buf remaining w buf1 remaining1 f2 w2 rc w3)
  then show ?case using fileread_step_eof by fastforce
qed

lemma filereadlh_loop_eof:
  assumes "filereadlh_loop B f lo hi dl buf remaining received w = Some (Inr (n, data, f1, w1))"
  shows "eof f1 = eof f \<or> end_of_stream f1 w1"
  using assms
proof (induct rule: filereadlh_loop_induct)
  case (Return f buf remaining received w)
  then show ?case using filereadlh_step_eof by fastforce
next
  case (Timeout f buf remaining received w buf1 remaining1 received1 f2 w2 w3)
  then show ?case using filereadlh_step_eof by fastforce
next
  case (Retry f buf remaining received w buf1 remaining1 received1 f2 w2)
  then show ?case using filereadlh_step_eof by fastforce
next
  case (Wake f buf remaining received w buf1 remaining1 received1 f2 w2 rc w3)
  then show ?case using filereadlh_step_eof by fastforce
qed

lemma eof_reads:
  "fileread B f len dl w = Some (Inr (n, data, f1, w1))
     \<Longrightarrow> eof f1 = eof f \<or> end_of_stream f1 w1"
  "filereadlh B f lo hi dl w = Some (Inr (n, data, f1, w1))
     \<Longrightarrow> eof f1 = eof f \<or> end_of_stream f1 w1"
  by (auto simp: fileread_def filereadlh_def Let_def split: if_splits
           dest: fileread_loop_eof filereadlh_loop_eof)

lemma eof_writes:
  "filewrite B f buf dl w = Some (Inr (k, f1, w1)) \<Longrightarrow> eof f1 = eof f"
  "fileflush f dl w = Some (Inr (f1, w1)) \<Longrightarrow> eof f1 = eof f"
  by (auto dest!: filewrite_input fileflush_input simp: input_side_def)

lemma eof_fileopen:
  "fileopen open_ret malloc_ret fstat_ret w = (Some f, w1) \<Longrightarrow> fileeof f = 0"
  by (auto simp: fileopen_def fileeof_def Let_def split: sum.splits option.splits)

lemma eof_fileseek:
  "fileeof (fst (snd (fileseek f offset lseek_ret w))) = 0"
  by (simp add: fileseek_def fileeof_def Let_def split: sum.splits)

lemma eof_fileattach:
  "fileattach d (Some g) rc w = Inr (Some f, w1) \<Longrightarrow> fileeof f = eof g"
  by (auto simp: fileattach_def fileeof_def split: sum.splits)

text \<open>
  Claim C6. The claim is that the end-of-stream flag is false on every freshly created
  channel. \<open>fileopen\<close> sets \<open>f->eof = 0\<close>; \<open>fileattach\<close> sets \<open>fd\<close>, \<open>ifirst\<close>, \<open>ilen\<close> and
  \<open>olen\<close> and leaves \<open>eof\<close> (and \<open>mode\<close>) as \<open>malloc\<close> returned them. On a block that
  holds 1 where \<open>eof\<close> lies, \<open>fileeof\<close> reports end of stream on the attached channel
  before anything has been read.
\<close>

theorem fileattach_leaves_eof:
  "fileattach 5 (Some stale_block) 0 world0
     = Inr (Some \<lparr>fd = 5, ifirst = 0, ilen = 0, olen = 0, ibuf = replicate 4096 0xAA,
                   obuf = replicate 4096 0xAA, eof = 1, mode = 0x81A4\<rparr>, world0)
   \<and> fileeof \<lparr>fd = 5, ifirst = 0, ilen = 0, olen = 0, ibuf = replicate 4096 0xAA,
               obuf = replicate 4096 0xAA, eof = 1, mode = 0x81A4\<rparr> = 1"
  by (simp add: fileattach_def mill_filetune_def fileeof_def stale_block_def world0_def)

end
